theory Spec2Isabelle
  imports Main "HOL-Library.Word" "HOL-Library.Sublist"
begin

section \<open>The batch producer of kinesis.go\<close>

text \<open>
  The producer accepts records through \<open>Put\<close>, queues them on the channel
  \<open>p.records\<close>, and a single goroutine (\<open>loop\<close>) assembles them into batches that
  \<open>flush\<close> hands to \<open>Client.PutRecords\<close>, retrying on failure.

  Go slices are lists, \<open>len\<close> of a byte slice or of a string counts bytes
  (\<open>length\<close>), a nil \<open>*string\<close> is \<open>None\<close>.  Lengths are natural numbers; the
  configured \<open>BufferSize\<close> and the reported \<open>FailedRecordCount\<close> are signed.
\<close>

subsection \<open>Constants\<close>

definition megaByte :: nat where
  "megaByte = push_bit 20 1"

definition maxRecordSize :: nat where
  "maxRecordSize = megaByte"

definition maxRequestSize :: nat where
  "maxRequestSize = 5 * megaByte"

subsection \<open>Data\<close>

type_synonym byte = "8 word"

text \<open>\<open>k.PutRecordsRequestEntry\<close>: the fields the producer sets and reads.\<close>

record entry =
  Data :: "byte list"
  PartitionKey :: string

text \<open>\<open>k.PutRecordsResultEntry\<close>: both fields are pointers, nil on an accepted record.\<close>

record result_entry =
  ErrorCode :: "string option"
  ErrorMessage :: "string option"

text \<open>
  What one call of \<open>Client.PutRecords\<close> gives back: \<open>err != nil\<close>, or an output
  with \<open>FailedRecordCount\<close> and \<open>Records\<close>.
\<close>

datatype response = TransportError | Output int "result_entry list"

text \<open>
  The fields of \<open>Config\<close> the code of kinesis.go reads (the declaration of \<open>Config\<close>
  is in another file): \<open>BufferSize\<close>, \<open>BacklogSize\<close> and \<open>Separator\<close>.
\<close>

record config =
  BufferSize :: int
  BacklogSize :: nat
  Separator :: "byte list"

datatype error = ErrRecordSizeExceeded

datatype panic = NilDereference | IndexOutOfRange

subsection \<open>Put and the channel\<close>

text \<open>
  The channel \<open>p.records\<close> is made by \<open>New\<close> with capacity \<open>BacklogSize\<close>.  Its state
  is its buffer (\<open>records\<close>) and the values of the sends that wait on a full buffer,
  oldest first (\<open>waiting\<close>).

  \<open>Put\<close> returns the error before it sends anything; otherwise it sends the entry.
  With room in the buffer the entry is appended and \<open>Put\<close> returns nil.  On a full
  buffer the send parks the entry behind the waiting ones and \<open>Put\<close> does not return
  until a receive takes that send up: the outcome \<open>Blocks\<close>.
\<close>

datatype put_outcome = Returns "error option" | Blocks

definition Put :: "config \<Rightarrow> byte list \<Rightarrow> string \<Rightarrow> entry list \<Rightarrow> entry list \<Rightarrow>
    put_outcome \<times> entry list \<times> entry list" where
  "Put cfg data partitionKey records waiting =
     (if length data + length partitionKey + length (Separator cfg) > maxRecordSize
      then (Returns (Some ErrRecordSizeExceeded), records, waiting)
      else if length records < BacklogSize cfg
      then (Returns None,
            records @ [\<lparr>Data = data @ Separator cfg, PartitionKey = partitionKey\<rparr>],
            waiting)
      else (Blocks, records,
            waiting @ [\<lparr>Data = data @ Separator cfg, PartitionKey = partitionKey\<rparr>]))"

text \<open>
  \<open><-p.records\<close> in the loop.  The receiver gets the head of the buffer, and the
  oldest waiting send, if there is one, puts its value at the end of the buffer and
  completes; with an empty buffer the receiver takes the value of the oldest waiting
  send itself.  The result is the value received, the buffer, the waiting sends, and
  whether a waiting send has completed (its \<open>Put\<close> goes on to \<open>return nil\<close>).  With
  nothing buffered and nothing waiting there is nothing to receive: \<open>None\<close>.
\<close>

definition receive :: "entry list \<Rightarrow> entry list \<Rightarrow> (entry \<times> entry list \<times> entry list \<times> bool) option" where
  "receive records waiting =
     (case records of
        [] \<Rightarrow> (case waiting of
                 [] \<Rightarrow> None
               | w # ws \<Rightarrow> Some (w, [], ws, True))
      | r # q \<Rightarrow> (case waiting of
                    [] \<Rightarrow> Some (r, q, [], False)
                  | w # ws \<Rightarrow> Some (r, q @ [w], ws, True)))"

subsection \<open>The backoff policy\<close>

text \<open>
  Modelled from the spec: the type of \<open>p.Backoff\<close> is declared outside kinesis.go.
  The policy holds an attempt counter; \<open>Duration()\<close> is computed from the counter and
  advances it, \<open>Reset()\<close> clears it.  The table \<open>dur\<close> from attempt number to
  duration is a parameter; \<open>dur 0\<close> is the baseline.
\<close>

definition Duration :: "(nat \<Rightarrow> int) \<Rightarrow> nat \<Rightarrow> int \<times> nat" where
  "Duration dur attempt = (dur attempt, Suc attempt)"

definition Reset :: "nat \<Rightarrow> nat" where
  "Reset attempt = 0"

subsection \<open>What the producer does to the outside\<close>

text \<open>
  The calls of \<open>flush\<close> and \<open>backoff\<close> that are visible outside the producer, in the
  order they are made: the submission, the three log lines, the sleep, the reset.
\<close>

datatype action =
    PutRecordsCall "entry list"
  | LogFlushError
  | LogPushRecord string string
  | LogPutFailures int int
  | Sleep int
  | BackoffReset

fun calls :: "action list \<Rightarrow> entry list list" where
  "calls [] = []"
| "calls (PutRecordsCall b # as) = b # calls as"
| "calls (_ # as) = calls as"

fun sleeps :: "action list \<Rightarrow> int list" where
  "sleeps [] = []"
| "sleeps (Sleep d # as) = d # sleeps as"
| "sleeps (_ # as) = sleeps as"

fun resets :: "action list \<Rightarrow> nat" where
  "resets [] = 0"
| "resets (BackoffReset # as) = Suc (resets as)"
| "resets (_ # as) = resets as"

subsection \<open>failures\<close>

text \<open>
  The range loop of \<open>failures\<close> with its index \<open>i\<close> and its result \<open>out\<close>;
  \<open>records[i]\<close> panics when \<open>i\<close> is not below \<open>len(records)\<close>.
\<close>

fun failures_loop :: "entry list \<Rightarrow> result_entry list \<Rightarrow> nat \<Rightarrow> entry list \<Rightarrow> panic + entry list" where
  "failures_loop records [] i out = Inr out"
| "failures_loop records (record # response) i out =
     (if ErrorCode record \<noteq> None
      then (if i < length records
            then failures_loop records response (Suc i) (out @ [records ! i])
            else Inl IndexOutOfRange)
      else failures_loop records response (Suc i) out)"

definition failures :: "entry list \<Rightarrow> result_entry list \<Rightarrow> panic + entry list" where
  "failures records response = failures_loop records response 0 []"

subsection \<open>backoff and flush\<close>

definition backoff :: "(nat \<Rightarrow> int) \<Rightarrow> int \<Rightarrow> nat \<Rightarrow> action list \<times> nat" where
  "backoff dur failed attempt =
     (case Duration dur attempt of
        (b, attempt') \<Rightarrow> ([LogPutFailures failed b, Sleep b], attempt'))"

text \<open>
  The logging loop of \<open>flush\<close> over \<open>out.Records\<close>: it reads \<open>*r.ErrorMessage\<close> of
  every entry whose \<open>ErrorCode\<close> is set, and panics when that pointer is nil.  The
  boolean says whether the loop ran to its end.
\<close>

fun log_rejected :: "result_entry list \<Rightarrow> action list \<times> bool" where
  "log_rejected [] = ([], True)"
| "log_rejected (r # rs) =
     (case ErrorCode r of
        None \<Rightarrow> log_rejected rs
      | Some code \<Rightarrow>
          (case ErrorMessage r of
             None \<Rightarrow> ([], False)
           | Some msg \<Rightarrow>
               (case log_rejected rs of (as, ok) \<Rightarrow> (LogPushRecord code msg # as, ok))))"

text \<open>
  \<open>flush\<close> calls itself until a submission reports no failure, so it need not
  return.  The submission capability is a script: the list of the responses it gives
  to the calls to come, one per call.  When the script is used up the last call has
  been made and nothing has come back yet: \<open>Pending\<close>.  \<open>Returned\<close> carries the
  attempt counter and the rest of the script.
\<close>

datatype outcome = Returned nat "response list" | Panicked panic | Pending

fun flush :: "(nat \<Rightarrow> int) \<Rightarrow> entry list \<Rightarrow> response list \<Rightarrow> nat \<Rightarrow> action list \<times> outcome" where
  "flush dur records [] attempt = ([PutRecordsCall records], Pending)"
| "flush dur records (TransportError # script) attempt =
     (case backoff dur (int (length records)) attempt of
        (bs, attempt') \<Rightarrow>
          (case flush dur records script attempt' of
             (tr, res) \<Rightarrow> (PutRecordsCall records # LogFlushError # bs @ tr, res)))"
| "flush dur records (Output failed out # script) attempt =
     (if failed = 0
      then ([PutRecordsCall records, BackoffReset], Returned (Reset attempt) script)
      else
        (case log_rejected out of
           (ls, ok) \<Rightarrow>
             if \<not> ok then (PutRecordsCall records # ls, Panicked NilDereference)
             else
               (case backoff dur failed attempt of
                  (bs, attempt') \<Rightarrow>
                    (case failures records out of
                       Inl e \<Rightarrow> (PutRecordsCall records # ls @ bs, Panicked e)
                     | Inr retry \<Rightarrow>
                         (case flush dur retry script attempt' of
                            (tr, res) \<Rightarrow> (PutRecordsCall records # ls @ bs @ tr, res))))))"

subsection \<open>The loop\<close>

text \<open>
  The locals of \<open>loop\<close> (\<open>buf\<close>, \<open>bufSize\<close>, \<open>drain\<close>), the backoff counter, the
  script of the submission capability, the actions so far, and where the goroutine
  is: running, returned, panicked, or inside a \<open>flush\<close> that has not returned.
\<close>

datatype status = Running | Exited | Crashed | Flushing

record loop_state =
  buf :: "entry list"
  bufSize :: nat
  drain :: bool
  attempt :: nat
  script :: "response list"
  trace :: "action list"
  status :: status

text \<open>\<open>p.flush(buf, ...); buf = nil; bufSize = 0\<close>\<close>

definition flush_buf :: "(nat \<Rightarrow> int) \<Rightarrow> loop_state \<Rightarrow> loop_state" where
  "flush_buf dur s =
     (case flush dur (buf s) (script s) (attempt s) of
        (tr, Returned a rest) \<Rightarrow>
          s\<lparr>buf := [], bufSize := 0, attempt := a, script := rest, trace := trace s @ tr\<rparr>
      | (tr, Panicked e) \<Rightarrow> s\<lparr>trace := trace s @ tr, status := Crashed\<rparr>
      | (tr, Pending) \<Rightarrow> s\<lparr>script := [], trace := trace s @ tr, status := Flushing\<rparr>)"

text \<open>
  The three cases of the \<open>select\<close>.  \<open>qlen\<close> is the value of \<open>len(p.records)\<close> that
  the case reads.
\<close>

definition on_record :: "config \<Rightarrow> (nat \<Rightarrow> int) \<Rightarrow> entry \<Rightarrow> nat \<Rightarrow> loop_state \<Rightarrow> loop_state" where
  "on_record cfg dur record qlen s =
     (let recordSize = length (PartitionKey record) + length (Data record);
          s1 = (if bufSize s + recordSize > maxRequestSize then flush_buf dur s else s)
      in if status s1 \<noteq> Running then s1
         else
           let s2 = s1\<lparr>buf := buf s1 @ [record], bufSize := bufSize s1 + recordSize\<rparr>;
               s3 = (if int (length (buf s2)) \<ge> BufferSize cfg then flush_buf dur s2 else s2)
           in if status s3 \<noteq> Running then s3
              else if drain s3 \<and> qlen = 0 then s3\<lparr>status := Exited\<rparr>
              else s3)"

definition on_tick :: "(nat \<Rightarrow> int) \<Rightarrow> loop_state \<Rightarrow> loop_state" where
  "on_tick dur s = (if length (buf s) > 0 then flush_buf dur s else s)"

definition on_done :: "nat \<Rightarrow> loop_state \<Rightarrow> loop_state" where
  "on_done qlen s =
     (let s1 = s\<lparr>drain := True\<rparr>
      in if qlen = 0 then s1\<lparr>status := Exited\<rparr> else s1)"

text \<open>
  One iteration of the \<open>for\<close> is one case of the \<open>select\<close>; a run of the loop is the
  list of the cases taken.  A goroutine that has returned, panicked or is held in
  \<open>flush\<close> takes no further case.
\<close>

datatype select = Record entry nat | Tick | Done nat

fun loop_step :: "config \<Rightarrow> (nat \<Rightarrow> int) \<Rightarrow> select \<Rightarrow> loop_state \<Rightarrow> loop_state" where
  "loop_step cfg dur (Record record qlen) s = on_record cfg dur record qlen s"
| "loop_step cfg dur Tick s = on_tick dur s"
| "loop_step cfg dur (Done qlen) s = on_done qlen s"

fun loop :: "config \<Rightarrow> (nat \<Rightarrow> int) \<Rightarrow> select list \<Rightarrow> loop_state \<Rightarrow> loop_state" where
  "loop cfg dur [] s = s"
| "loop cfg dur (ev # evs) s =
     (if status s \<noteq> Running then s else loop cfg dur evs (loop_step cfg dur ev s))"

text \<open>The state in which \<open>loop\<close> starts: \<open>buf\<close> empty, \<open>bufSize\<close> 0, \<open>drain\<close> false.\<close>

definition loop_init :: "nat \<Rightarrow> response list \<Rightarrow> loop_state" where
  "loop_init a rs =
     \<lparr>buf = [], bufSize = 0, drain = False, attempt = a, script = rs, trace = [],
      status = Running\<rparr>"

subsection \<open>Producer, callers and loop together\<close>

text \<open>
  The channel \<open>p.records\<close> between the callers and the loop: its buffer
  (\<open>records_chan\<close>), the waiting sends (\<open>sendq\<close>), and whether \<open>Stop\<close> has closed it.
  \<open>puts\<close> lists the results of the calls of \<open>Put\<close> that have returned.

  A schedule lists what happens, one at a time: a caller's \<open>Put\<close>, the loop
  receiving from the channel, a tick of the timer, and \<open>Stop\<close> (its send on
  \<open>p.done\<close> received by the loop, then \<open>close(p.records)\<close>).  \<open>None\<close>: the schedule is
  not one of a producer in use (a receive from an empty open channel, a case taken by
  a loop that is gone, a \<open>Put\<close> after \<open>Stop\<close> or a \<open>Stop\<close> while a send waits, which
  both panic in the caller).  A receive from the closed and empty channel gives the
  loop a nil record, which it dereferences.
\<close>

record producer =
  records_chan :: "entry list"
  sendq :: "entry list"
  closed :: bool
  puts :: "error option list"
  assembler :: loop_state

datatype event = CallPut "byte list" string | Receive | TimerTick | CallStop

fun step :: "config \<Rightarrow> (nat \<Rightarrow> int) \<Rightarrow> event \<Rightarrow> producer \<Rightarrow> producer option" where
  "step cfg dur (CallPut data partitionKey) p =
     (if closed p then None
      else case Put cfg data partitionKey (records_chan p) (sendq p) of
             (Returns e, q, ws) \<Rightarrow>
               Some (p\<lparr>records_chan := q, sendq := ws, puts := puts p @ [e]\<rparr>)
           | (Blocks, q, ws) \<Rightarrow> Some (p\<lparr>records_chan := q, sendq := ws\<rparr>))"
| "step cfg dur Receive p =
     (if status (assembler p) \<noteq> Running then None
      else case receive (records_chan p) (sendq p) of
             None \<Rightarrow>
               (if closed p
                then Some (p\<lparr>assembler := (assembler p)\<lparr>status := Crashed\<rparr>\<rparr>)
                else None)
           | Some (record, q, ws, completed) \<Rightarrow>
               Some (p\<lparr>records_chan := q, sendq := ws,
                       puts := (if completed then puts p @ [None] else puts p),
                       assembler := on_record cfg dur record (length q) (assembler p)\<rparr>))"
| "step cfg dur TimerTick p =
     (if status (assembler p) \<noteq> Running then None
      else Some (p\<lparr>assembler := on_tick dur (assembler p)\<rparr>))"
| "step cfg dur CallStop p =
     (if status (assembler p) \<noteq> Running \<or> closed p \<or> sendq p \<noteq> [] then None
      else Some (p\<lparr>closed := True,
                   assembler := on_done (length (records_chan p)) (assembler p)\<rparr>))"

fun run :: "config \<Rightarrow> (nat \<Rightarrow> int) \<Rightarrow> event list \<Rightarrow> producer \<Rightarrow> producer option" where
  "run cfg dur [] p = Some p"
| "run cfg dur (ev # evs) p =
     (case step cfg dur ev p of None \<Rightarrow> None | Some p' \<Rightarrow> run cfg dur evs p')"

text \<open>\<open>New\<close> followed by \<open>Start\<close>.\<close>

definition New :: "nat \<Rightarrow> response list \<Rightarrow> producer" where
  "New a rs =
     \<lparr>records_chan = [], sendq = [], closed = False, puts = [],
      assembler = loop_init a rs\<rparr>"

subsection \<open>The vocabulary of the specification\<close>

text \<open>The byte size of a batch: the sum over its records of payload and partition key.\<close>

definition batch_bytes :: "entry list \<Rightarrow> nat" where
  "batch_bytes b = sum_list (map (\<lambda>r. length (Data r) + length (PartitionKey r)) b)"

text \<open>A result entry reports a rejection when it carries an error code.\<close>

definition rejected :: "result_entry \<Rightarrow> bool" where
  "rejected e = (ErrorCode e \<noteq> None)"

text \<open>
  The records of a batch whose result entries, at the same position, report a
  rejection; in the order of the batch.
\<close>

fun failed_records :: "entry list \<Rightarrow> result_entry list \<Rightarrow> entry list" where
  "failed_records (r # rs) (e # es) =
     (if rejected e then r # failed_records rs es else failed_records rs es)"
| "failed_records _ _ = []"

text \<open>
  A response that reports failures names one: a structured result whose failed count
  is not zero carries an error code on at least one entry.
\<close>

fun names_a_failure :: "response \<Rightarrow> bool" where
  "names_a_failure TransportError = True"
| "names_a_failure (Output failed out) = (failed = 0 \<or> list_ex rejected out)"

text \<open>
  The size of a record as the loop counts it, and a batch within both limits of a
  request: at most \<open>maxRequestSize\<close> bytes and at most \<open>BufferSize\<close> records.
\<close>

definition record_size :: "entry \<Rightarrow> nat" where
  "record_size r = length (PartitionKey r) + length (Data r)"

definition within_limits :: "config \<Rightarrow> entry list \<Rightarrow> bool" where
  "within_limits cfg b = (batch_bytes b \<le> maxRequestSize \<and> int (length b) \<le> BufferSize cfg)"

text \<open>A case of the \<open>select\<close> whose record, if it has one, is within \<open>maxRecordSize\<close>.\<close>

fun sized :: "select \<Rightarrow> bool" where
  "sized (Record record qlen) = (record_size record \<le> maxRecordSize)"
| "sized _ = True"

text \<open>
  A rejection the log line can print: an entry with an error code has a message too.
\<close>

definition explained :: "result_entry \<Rightarrow> bool" where
  "explained e = (ErrorCode e = None \<or> ErrorMessage e \<noteq> None)"

text \<open>
  The submissions of a \<open>flush\<close>, each with the response that answers it.  A response
  is an index fault for the batch it answers when \<open>flush\<close> gets as far as \<open>failures\<close>
  with it (a failed count other than zero, a message on every entry with an error
  code) and it carries an error code at a position beyond the batch.  A response has
  one entry per record when it has no more entries than the batch it answers.
\<close>

fun index_fault :: "entry list \<Rightarrow> response \<Rightarrow> bool" where
  "index_fault b TransportError = False"
| "index_fault b (Output failed out) =
     (failed \<noteq> 0 \<and> list_all explained out \<and> list_ex rejected (drop (length b) out))"

fun one_entry_per_record :: "entry list \<Rightarrow> response \<Rightarrow> bool" where
  "one_entry_per_record b TransportError = True"
| "one_entry_per_record b (Output failed out) = (length out \<le> length b)"

definition exchanges :: "(nat \<Rightarrow> int) \<Rightarrow> entry list \<Rightarrow> response list \<Rightarrow> nat \<Rightarrow>
    (entry list \<times> response) list" where
  "exchanges dur records rs a = zip (calls (fst (flush dur records rs a))) rs"

subsection \<open>Invariants of the loop\<close>

text \<open>
  While the loop runs, \<open>bufSize\<close> is the byte size of \<open>buf\<close>, within the request
  limit, and \<open>buf\<close> holds fewer than \<open>BufferSize\<close> records; every batch submitted so
  far was within limits.
\<close>

definition limits_inv :: "config \<Rightarrow> loop_state \<Rightarrow> bool" where
  "limits_inv cfg s =
     ((status s = Running \<longrightarrow>
         bufSize s = batch_bytes (buf s) \<and> bufSize s \<le> maxRequestSize \<and>
         int (length (buf s)) < BufferSize cfg) \<and>
      list_all (within_limits cfg) (calls (trace s)))"

text \<open>
  While the loop runs, an empty \<open>buf\<close> has \<open>bufSize\<close> 0; every response to come
  names a failure if it reports one; no batch submitted so far was empty.
\<close>

definition nonempty_inv :: "loop_state \<Rightarrow> bool" where
  "nonempty_inv s =
     ((status s = Running \<longrightarrow> buf s = [] \<longrightarrow> bufSize s = 0) \<and>
      list_all names_a_failure (script s) \<and>
      list_all (\<lambda>b. b \<noteq> []) (calls (trace s)))"

subsection \<open>Examples\<close>

text \<open>
  Scenario A of the specification: at most two records in a batch, three small
  records, the separator a newline.  The backoff table doubles from 100.
\<close>

definition cfgA :: config where
  "cfgA = \<lparr>BufferSize = 2, BacklogSize = 3, Separator = [10]\<rparr>"

definition doubling :: "nat \<Rightarrow> int" where
  "doubling n = 100 * 2 ^ n"

definition r1 :: entry where
  "r1 = \<lparr>Data = [1, 10], PartitionKey = ''a''\<rparr>"

definition r2 :: entry where
  "r2 = \<lparr>Data = [2, 10], PartitionKey = ''b''\<rparr>"

definition r3 :: entry where
  "r3 = \<lparr>Data = [3, 10], PartitionKey = ''c''\<rparr>"

definition accepted :: result_entry where
  "accepted = \<lparr>ErrorCode = None, ErrorMessage = None\<rparr>"

definition throttled :: result_entry where
  "throttled =
     \<lparr>ErrorCode = Some ''ProvisionedThroughputExceededException'',
      ErrorMessage = Some ''Rate exceeded''\<rparr>"

text \<open>
  The responses and the two schedules of scenario A: \<open>Stop\<close> called when the three
  records are still queued, and \<open>Stop\<close> called after the loop has received them.
\<close>

definition scriptA :: "response list" where
  "scriptA = [Output 0 [accepted, accepted], Output 0 [accepted]]"

definition stop_after_puts :: "event list" where
  "stop_after_puts =
     [CallPut [1] ''a'', CallPut [2] ''b'', CallPut [3] ''c'', CallStop,
      Receive, Receive, Receive]"

definition stop_after_receives :: "event list" where
  "stop_after_receives =
     [CallPut [1] ''a'', Receive, CallPut [2] ''b'', Receive, CallPut [3] ''c'', Receive,
      CallStop]"

text \<open>
  A producer whose channel holds one record and is full: the state after the first
  \<open>Put\<close> of scenario A when the backlog is one.
\<close>

definition one_slot :: config where
  "one_slot = \<lparr>BufferSize = 2, BacklogSize = 1, Separator = [10]\<rparr>"

definition one_queued :: producer where
  "one_queued =
     \<lparr>records_chan = [r1], sendq = [], closed = False, puts = [None],
      assembler = loop_init 0 scriptA\<rparr>"

section \<open>Properties\<close>

subsection \<open>Put\<close>

lemma maxRecordSize_val: "maxRecordSize = 1048576"
  by (simp add: maxRecordSize_def megaByte_def)

lemma maxRequestSize_val: "maxRequestSize = 5242880"
  by (simp add: maxRequestSize_def megaByte_def)

lemma Put_over:
  "length data + length partitionKey + length (Separator cfg) > maxRecordSize \<Longrightarrow>
   Put cfg data partitionKey records waiting =
     (Returns (Some ErrRecordSizeExceeded), records, waiting)"
  by (simp add: Put_def)

lemma Put_within:
  "length data + length partitionKey + length (Separator cfg) \<le> maxRecordSize \<Longrightarrow>
   Put cfg data partitionKey records waiting =
     (if length records < BacklogSize cfg
      then (Returns None,
            records @ [\<lparr>Data = data @ Separator cfg, PartitionKey = partitionKey\<rparr>], waiting)
      else (Blocks, records,
            waiting @ [\<lparr>Data = data @ Separator cfg, PartitionKey = partitionKey\<rparr>]))"
  by (simp add: Put_def)

lemma receive_waiting:
  "\<exists>x q. receive records (w # ws) = Some (x, q, ws, True) \<and> x # q = records @ [w]"
  by (cases records) (simp_all add: receive_def)

lemma step_Put_over:
  assumes "length data + length partitionKey + length (Separator cfg) > maxRecordSize"
    and "\<not> closed p"
  shows "\<exists>p'. step cfg dur (CallPut data partitionKey) p = Some p' \<and>
           records_chan p' = records_chan p \<and> sendq p' = sendq p \<and>
           puts p' = puts p @ [Some ErrRecordSizeExceeded] \<and>
           assembler p' = assembler p \<and> closed p' = closed p"
  using assms by (simp add: Put_over)

lemma step_Put_room:
  assumes "length data + length partitionKey + length (Separator cfg) \<le> maxRecordSize"
    and "\<not> closed p" and "length (records_chan p) < BacklogSize cfg"
  shows "\<exists>p'. step cfg dur (CallPut data partitionKey) p = Some p' \<and>
           records_chan p' =
             records_chan p @ [\<lparr>Data = data @ Separator cfg, PartitionKey = partitionKey\<rparr>] \<and>
           sendq p' = sendq p \<and> puts p' = puts p @ [None] \<and>
           assembler p' = assembler p \<and> closed p' = closed p"
  using assms by (simp add: Put_within)

lemma step_Put_full:
  assumes "length data + length partitionKey + length (Separator cfg) \<le> maxRecordSize"
    and "\<not> closed p" and "BacklogSize cfg \<le> length (records_chan p)"
  shows "\<exists>p'. step cfg dur (CallPut data partitionKey) p = Some p' \<and>
           records_chan p' = records_chan p \<and>
           sendq p' =
             sendq p @ [\<lparr>Data = data @ Separator cfg, PartitionKey = partitionKey\<rparr>] \<and>
           puts p' = puts p \<and> assembler p' = assembler p \<and> closed p' = closed p"
  using assms by (simp add: Put_within)

lemma step_Receive_waiting:
  assumes "status (assembler p) = Running" and "sendq p = w # ws"
  shows "\<exists>p' x. step cfg dur Receive p = Some p' \<and>
           x # records_chan p' = records_chan p @ [w] \<and> sendq p' = ws \<and>
           puts p' = puts p @ [None] \<and>
           assembler p' = on_record cfg dur x (length (records_chan p')) (assembler p) \<and>
           closed p' = closed p"
proof -
  obtain x q where "receive (records_chan p) (w # ws) = Some (x, q, ws, True)"
    and "x # q = records_chan p @ [w]"
    using receive_waiting by blast
  with assms show ?thesis by auto
qed

lemma run_Put_full:
  assumes lim: "length data + length partitionKey + length (Separator cfg) \<le> maxRecordSize"
    and op: "\<not> closed p" and full: "BacklogSize cfg \<le> length (records_chan p)"
    and none: "sendq p = []" and run: "status (assembler p) = Running"
  shows "\<exists>p' x. run cfg dur [CallPut data partitionKey, Receive] p = Some p' \<and>
           x # records_chan p' =
             records_chan p @ [\<lparr>Data = data @ Separator cfg, PartitionKey = partitionKey\<rparr>] \<and>
           sendq p' = [] \<and> puts p' = puts p @ [None] \<and>
           assembler p' = on_record cfg dur x (length (records_chan p')) (assembler p) \<and>
           closed p' = closed p"
proof -
  from step_Put_full [OF lim op full, of dur] none obtain p1 where
    1: "step cfg dur (CallPut data partitionKey) p = Some p1"
    and f: "records_chan p1 = records_chan p"
      "sendq p1 = [\<lparr>Data = data @ Separator cfg, PartitionKey = partitionKey\<rparr>]"
      "puts p1 = puts p" "assembler p1 = assembler p" "closed p1 = closed p"
    by auto
  from run f have r1: "status (assembler p1) = Running" by simp
  from step_Receive_waiting [OF r1 f(2), of cfg dur] obtain p2 x where
    2: "step cfg dur Receive p1 = Some p2"
    and g: "x # records_chan p2 =
        records_chan p1 @ [\<lparr>Data = data @ Separator cfg, PartitionKey = partitionKey\<rparr>]"
      "sendq p2 = []" "puts p2 = puts p1 @ [None]"
      "assembler p2 = on_record cfg dur x (length (records_chan p2)) (assembler p1)"
      "closed p2 = closed p1"
    by blast
  from 1 2 have "run cfg dur [CallPut data partitionKey, Receive] p = Some p2"
    by simp
  with f g show ?thesis by auto
qed

text \<open>
  Claim C3.  When the payload, the partition key and the separator together are
  longer than \<open>maxRecordSize\<close>, \<open>Put\<close> returns \<open>ErrRecordSizeExceeded\<close> and sends
  nothing: the buffer and the waiting sends are what they were.  At or under the limit
  \<open>Put\<close> sends exactly one entry and returns no error.  With room in the buffer the
  entry is appended and \<open>Put\<close> returns nil at once.  On a full buffer the send waits
  behind the earlier ones; a receive lets the oldest waiting send complete, its entry
  at the end of the queue and nil returned.  The producer does the same, step by
  step, and a \<open>Put\<close> on a full buffer with no send ahead of it has returned nil with
  its one entry enqueued after the next receive.
\<close>

theorem Put_size_check:
  "(length data + length partitionKey + length (Separator cfg) > maxRecordSize \<longrightarrow>
      Put cfg data partitionKey records waiting =
        (Returns (Some ErrRecordSizeExceeded), records, waiting) \<and>
      (\<not> closed p \<longrightarrow>
         (\<exists>p'. step cfg dur (CallPut data partitionKey) p = Some p' \<and>
            records_chan p' = records_chan p \<and> sendq p' = sendq p \<and>
            puts p' = puts p @ [Some ErrRecordSizeExceeded] \<and>
            assembler p' = assembler p))) \<and>
   (length data + length partitionKey + length (Separator cfg) \<le> maxRecordSize \<longrightarrow>
      Put cfg data partitionKey records waiting =
        (if length records < BacklogSize cfg
         then (Returns None,
               records @ [\<lparr>Data = data @ Separator cfg, PartitionKey = partitionKey\<rparr>],
               waiting)
         else (Blocks, records,
               waiting @ [\<lparr>Data = data @ Separator cfg, PartitionKey = partitionKey\<rparr>])) \<and>
      (\<not> closed p \<and> length (records_chan p) < BacklogSize cfg \<longrightarrow>
         (\<exists>p'. step cfg dur (CallPut data partitionKey) p = Some p' \<and>
            records_chan p' =
              records_chan p @ [\<lparr>Data = data @ Separator cfg, PartitionKey = partitionKey\<rparr>] \<and>
            sendq p' = sendq p \<and> puts p' = puts p @ [None] \<and>
            assembler p' = assembler p)) \<and>
      (\<not> closed p \<and> BacklogSize cfg \<le> length (records_chan p) \<longrightarrow>
         (\<exists>p'. step cfg dur (CallPut data partitionKey) p = Some p' \<and>
            records_chan p' = records_chan p \<and>
            sendq p' =
              sendq p @ [\<lparr>Data = data @ Separator cfg, PartitionKey = partitionKey\<rparr>] \<and>
            puts p' = puts p \<and> assembler p' = assembler p)) \<and>
      (\<not> closed p \<and> BacklogSize cfg \<le> length (records_chan p) \<and> sendq p = [] \<and>
       status (assembler p) = Running \<longrightarrow>
         (\<exists>p' x. run cfg dur [CallPut data partitionKey, Receive] p = Some p' \<and>
            x # records_chan p' =
              records_chan p @ [\<lparr>Data = data @ Separator cfg, PartitionKey = partitionKey\<rparr>] \<and>
            sendq p' = [] \<and> puts p' = puts p @ [None] \<and>
            assembler p' = on_record cfg dur x (length (records_chan p')) (assembler p)))) \<and>
   (\<exists>x q. receive records (w # ws) = Some (x, q, ws, True) \<and> x # q = records @ [w]) \<and>
   (status (assembler p) = Running \<and> sendq p = w # ws \<longrightarrow>
      (\<exists>p' x. step cfg dur Receive p = Some p' \<and>
         x # records_chan p' = records_chan p @ [w] \<and> sendq p' = ws \<and>
         puts p' = puts p @ [None] \<and>
         assembler p' = on_record cfg dur x (length (records_chan p')) (assembler p)))"
proof (intro conjI impI)
  assume "maxRecordSize < length data + length partitionKey + length (Separator cfg)"
  then show "Put cfg data partitionKey records waiting =
      (Returns (Some ErrRecordSizeExceeded), records, waiting)"
    by (rule Put_over)
next
  assume "maxRecordSize < length data + length partitionKey + length (Separator cfg)"
    and "\<not> closed p"
  from step_Put_over [OF this, of dur]
  show "\<exists>p'. step cfg dur (CallPut data partitionKey) p = Some p' \<and>
      records_chan p' = records_chan p \<and> sendq p' = sendq p \<and>
      puts p' = puts p @ [Some ErrRecordSizeExceeded] \<and> assembler p' = assembler p"
    by blast
next
  assume "length data + length partitionKey + length (Separator cfg) \<le> maxRecordSize"
  then show "Put cfg data partitionKey records waiting =
      (if length records < BacklogSize cfg
       then (Returns None,
             records @ [\<lparr>Data = data @ Separator cfg, PartitionKey = partitionKey\<rparr>],
             waiting)
       else (Blocks, records,
             waiting @ [\<lparr>Data = data @ Separator cfg, PartitionKey = partitionKey\<rparr>]))"
    by (rule Put_within)
next
  assume "length data + length partitionKey + length (Separator cfg) \<le> maxRecordSize"
    and "\<not> closed p \<and> length (records_chan p) < BacklogSize cfg"
  then show "\<exists>p'. step cfg dur (CallPut data partitionKey) p = Some p' \<and>
      records_chan p' =
        records_chan p @ [\<lparr>Data = data @ Separator cfg, PartitionKey = partitionKey\<rparr>] \<and>
      sendq p' = sendq p \<and> puts p' = puts p @ [None] \<and> assembler p' = assembler p"
    using step_Put_room [of data partitionKey cfg p dur] by blast
next
  assume "length data + length partitionKey + length (Separator cfg) \<le> maxRecordSize"
    and "\<not> closed p \<and> BacklogSize cfg \<le> length (records_chan p)"
  then show "\<exists>p'. step cfg dur (CallPut data partitionKey) p = Some p' \<and>
      records_chan p' = records_chan p \<and>
      sendq p' =
        sendq p @ [\<lparr>Data = data @ Separator cfg, PartitionKey = partitionKey\<rparr>] \<and>
      puts p' = puts p \<and> assembler p' = assembler p"
    using step_Put_full [of data partitionKey cfg p dur] by blast
next
  assume "length data + length partitionKey + length (Separator cfg) \<le> maxRecordSize"
    and "\<not> closed p \<and> BacklogSize cfg \<le> length (records_chan p) \<and> sendq p = [] \<and>
      status (assembler p) = Running"
  then show "\<exists>p' x. run cfg dur [CallPut data partitionKey, Receive] p = Some p' \<and>
      x # records_chan p' =
        records_chan p @ [\<lparr>Data = data @ Separator cfg, PartitionKey = partitionKey\<rparr>] \<and>
      sendq p' = [] \<and> puts p' = puts p @ [None] \<and>
      assembler p' = on_record cfg dur x (length (records_chan p')) (assembler p)"
    using run_Put_full [of data partitionKey cfg p dur] by blast
next
  show "\<exists>x q. receive records (w # ws) = Some (x, q, ws, True) \<and> x # q = records @ [w]"
    by (rule receive_waiting)
next
  assume "status (assembler p) = Running \<and> sendq p = w # ws"
  then show "\<exists>p' x. step cfg dur Receive p = Some p' \<and>
      x # records_chan p' = records_chan p @ [w] \<and> sendq p' = ws \<and>
      puts p' = puts p @ [None] \<and>
      assembler p' = on_record cfg dur x (length (records_chan p')) (assembler p)"
    using step_Receive_waiting [of p w ws cfg dur] by blast
qed

theorem Put_size_check_witness:
  "Put cfgA (replicate 1048574 7) ''ab'' [r1] [] =
     (Returns (Some ErrRecordSizeExceeded), [r1], []) \<and>
   Put cfgA [3] ''c'' [r1] [] = (Returns None, [r1, r3], []) \<and>
   Put one_slot [2] ''b'' [r1] [] = (Blocks, [r1], [r2]) \<and>
   (\<exists>p'. run one_slot doubling [CallPut [2] ''b'', Receive] one_queued = Some p' \<and>
      records_chan p' = [r2] \<and> sendq p' = [] \<and> puts p' = [None, None] \<and>
      assembler p' = on_record one_slot doubling r1 1 (loop_init 0 scriptA))"
  using Put_size_check [where data = "replicate 1048574 7" and partitionKey = "''ab''"
      and cfg = cfgA and records = "[r1]" and waiting = "[]" and p = one_queued
      and dur = doubling and w = r1 and ws = "[]"]
    Put_size_check [where data = "[3]" and partitionKey = "''c''"
      and cfg = cfgA and records = "[r1]" and waiting = "[]" and p = one_queued
      and dur = doubling and w = r1 and ws = "[]"]
    Put_size_check [where data = "[2]" and partitionKey = "''b''"
      and cfg = one_slot and records = "[r1]" and waiting = "[]" and p = one_queued
      and dur = doubling and w = r1 and ws = "[]"]
  by (auto simp add: maxRecordSize_val cfgA_def one_slot_def one_queued_def loop_init_def
      r2_def r3_def simp del: step.simps run.simps)

text \<open>
  Claim C9.  The check in \<open>Put\<close> is strict: a record whose total is exactly
  \<open>maxRecordSize\<close> is accepted and sent with the payload followed by the separator,
  appended at once when the buffer has room, parked and enqueued by the next receive
  when it is full; \<open>ErrRecordSizeExceeded\<close> is returned exactly when the total is
  greater than \<open>maxRecordSize\<close>.
\<close>

theorem Put_limit_is_strict:
  "(length data + length partitionKey + length (Separator cfg) = maxRecordSize \<longrightarrow>
      Put cfg data partitionKey records waiting =
        (if length records < BacklogSize cfg
         then (Returns None,
               records @ [\<lparr>Data = data @ Separator cfg, PartitionKey = partitionKey\<rparr>],
               waiting)
         else (Blocks, records,
               waiting @ [\<lparr>Data = data @ Separator cfg, PartitionKey = partitionKey\<rparr>])) \<and>
      (\<not> closed p \<and> length (records_chan p) < BacklogSize cfg \<longrightarrow>
         (\<exists>p'. step cfg dur (CallPut data partitionKey) p = Some p' \<and>
            records_chan p' =
              records_chan p @ [\<lparr>Data = data @ Separator cfg, PartitionKey = partitionKey\<rparr>] \<and>
            sendq p' = sendq p \<and> puts p' = puts p @ [None] \<and>
            assembler p' = assembler p)) \<and>
      (\<not> closed p \<and> BacklogSize cfg \<le> length (records_chan p) \<and> sendq p = [] \<and>
       status (assembler p) = Running \<longrightarrow>
         (\<exists>p' x. run cfg dur [CallPut data partitionKey, Receive] p = Some p' \<and>
            x # records_chan p' =
              records_chan p @ [\<lparr>Data = data @ Separator cfg, PartitionKey = partitionKey\<rparr>] \<and>
            sendq p' = [] \<and> puts p' = puts p @ [None] \<and>
            assembler p' = on_record cfg dur x (length (records_chan p')) (assembler p)))) \<and>
   (fst (Put cfg data partitionKey records waiting) = Returns (Some ErrRecordSizeExceeded) \<longleftrightarrow>
      length data + length partitionKey + length (Separator cfg) > maxRecordSize)"
proof (intro conjI impI)
  assume "length data + length partitionKey + length (Separator cfg) = maxRecordSize"
  then show "Put cfg data partitionKey records waiting =
      (if length records < BacklogSize cfg
       then (Returns None,
             records @ [\<lparr>Data = data @ Separator cfg, PartitionKey = partitionKey\<rparr>],
             waiting)
       else (Blocks, records,
             waiting @ [\<lparr>Data = data @ Separator cfg, PartitionKey = partitionKey\<rparr>]))"
    by (simp add: Put_within)
next
  assume "length data + length partitionKey + length (Separator cfg) = maxRecordSize"
    and "\<not> closed p \<and> length (records_chan p) < BacklogSize cfg"
  then show "\<exists>p'. step cfg dur (CallPut data partitionKey) p = Some p' \<and>
      records_chan p' =
        records_chan p @ [\<lparr>Data = data @ Separator cfg, PartitionKey = partitionKey\<rparr>] \<and>
      sendq p' = sendq p \<and> puts p' = puts p @ [None] \<and> assembler p' = assembler p"
    using step_Put_room [of data partitionKey cfg p dur] by auto
next
  assume "length data + length partitionKey + length (Separator cfg) = maxRecordSize"
    and "\<not> closed p \<and> BacklogSize cfg \<le> length (records_chan p) \<and> sendq p = [] \<and>
      status (assembler p) = Running"
  then show "\<exists>p' x. run cfg dur [CallPut data partitionKey, Receive] p = Some p' \<and>
      x # records_chan p' =
        records_chan p @ [\<lparr>Data = data @ Separator cfg, PartitionKey = partitionKey\<rparr>] \<and>
      sendq p' = [] \<and> puts p' = puts p @ [None] \<and>
      assembler p' = on_record cfg dur x (length (records_chan p')) (assembler p)"
    using run_Put_full [of data partitionKey cfg p dur] by auto
next
  show "fst (Put cfg data partitionKey records waiting) = Returns (Some ErrRecordSizeExceeded) \<longleftrightarrow>
      length data + length partitionKey + length (Separator cfg) > maxRecordSize"
    by (simp add: Put_def)
qed

theorem Put_limit_is_strict_witness:
  "Put cfgA (replicate 1048573 7) ''ab'' [] [] =
     (Returns None, [\<lparr>Data = replicate 1048573 7 @ [10], PartitionKey = ''ab''\<rparr>], []) \<and>
   Put one_slot (replicate 1048573 7) ''ab'' [r1] [] =
     (Blocks, [r1], [\<lparr>Data = replicate 1048573 7 @ [10], PartitionKey = ''ab''\<rparr>]) \<and>
   (\<exists>p'. run one_slot doubling [CallPut (replicate 1048573 7) ''ab'', Receive] one_queued =
        Some p' \<and>
      records_chan p' = [\<lparr>Data = replicate 1048573 7 @ [10], PartitionKey = ''ab''\<rparr>] \<and>
      sendq p' = [] \<and> puts p' = [None, None]) \<and>
   fst (Put cfgA (replicate 1048574 7) ''ab'' [] []) = Returns (Some ErrRecordSizeExceeded)"
  using Put_limit_is_strict [where data = "replicate 1048573 7" and partitionKey = "''ab''"
      and cfg = cfgA and records = "[]" and waiting = "[]" and p = one_queued
      and dur = doubling]
    Put_limit_is_strict [where data = "replicate 1048573 7" and partitionKey = "''ab''"
      and cfg = one_slot and records = "[r1]" and waiting = "[]" and p = one_queued
      and dur = doubling]
    Put_limit_is_strict [where data = "replicate 1048574 7" and partitionKey = "''ab''"
      and cfg = cfgA and records = "[]" and waiting = "[]" and p = one_queued
      and dur = doubling]
  by (auto simp add: maxRecordSize_val cfgA_def one_slot_def one_queued_def loop_init_def
      simp del: step.simps run.simps)

subsection \<open>failures\<close>

lemma failures_loop_eq:
  "failures_loop records response i out =
     (if list_ex rejected (drop (length records - i) response) then Inl IndexOutOfRange
      else Inr (out @ failed_records (drop i records) response))"
proof (induction response arbitrary: i out)
  case Nil
  then show ?case by (cases "drop i records") simp_all
next
  case (Cons e es)
  show ?case
  proof (cases "i < length records")
    case True
    then have d: "drop i records = records ! i # drop (Suc i) records"
      by (simp add: Cons_nth_drop_Suc)
    from True have k: "length records - i = Suc (length records - Suc i)"
      by simp
    show ?thesis
      using True by (simp add: Cons.IH d k rejected_def)
  next
    case False
    then have d: "drop i records = []" "drop (Suc i) records = []" by simp_all
    from False have k: "length records - i = 0" "length records - Suc i = 0" by simp_all
    show ?thesis
      using False by (simp add: Cons.IH d k rejected_def)
  qed
qed

lemma failures_eq:
  "failures records response =
     (if list_ex rejected (drop (length records) response) then Inl IndexOutOfRange
      else Inr (failed_records records response))"
  by (simp add: failures_def failures_loop_eq)

lemma failed_records_length:
  "length (failed_records records response) \<le> length records"
  by (induction records response rule: failed_records.induct) auto

lemma failed_records_bytes:
  "batch_bytes (failed_records records response) \<le> batch_bytes records"
  by (induction records response rule: failed_records.induct) (auto simp: batch_bytes_def)

lemma failed_records_count:
  "length response \<le> length records \<Longrightarrow>
   length (failed_records records response) = length (filter rejected response)"
  by (induction records response rule: failed_records.induct) auto

lemma failed_records_nonempty:
  "list_ex rejected (take (length records) response) \<Longrightarrow> failed_records records response \<noteq> []"
  by (induction records response rule: failed_records.induct) auto

subsection \<open>flush, case by case\<close>

lemma calls_append: "calls (xs @ ys) = calls xs @ calls ys"
  by (induction xs rule: calls.induct) simp_all

lemma sleeps_append: "sleeps (xs @ ys) = sleeps xs @ sleeps ys"
  by (induction xs rule: sleeps.induct) simp_all

lemma resets_append: "resets (xs @ ys) = resets xs + resets ys"
  by (induction xs rule: resets.induct) simp_all

lemma log_rejected_quiet:
  "calls (fst (log_rejected out)) = [] \<and> sleeps (fst (log_rejected out)) = [] \<and>
   resets (fst (log_rejected out)) = 0"
  by (induction out) (auto split: option.splits prod.splits)

lemma log_rejected_ok: "snd (log_rejected out) = list_all explained out"
  by (induction out) (auto simp add: explained_def split: option.splits prod.splits)

lemma backoff_eq:
  "backoff dur failed a = ([LogPutFailures failed (dur a), Sleep (dur a)], Suc a)"
  by (simp add: backoff_def Duration_def)

lemma flush_Nil: "flush dur records [] a = ([PutRecordsCall records], Pending)"
  by simp

lemma flush_TransportError:
  "flush dur records (TransportError # rs) a =
     (PutRecordsCall records # LogFlushError # LogPutFailures (int (length records)) (dur a) #
        Sleep (dur a) # fst (flush dur records rs (Suc a)),
      snd (flush dur records rs (Suc a)))"
  by (simp add: backoff_eq split: prod.splits)

lemma flush_Output_zero:
  "flush dur records (Output 0 out # rs) a =
     ([PutRecordsCall records, BackoffReset], Returned 0 rs)"
  by (simp add: Reset_def)

lemma flush_Output_nil_message:
  "failed \<noteq> 0 \<Longrightarrow> \<not> snd (log_rejected out) \<Longrightarrow>
   flush dur records (Output failed out # rs) a =
     (PutRecordsCall records # fst (log_rejected out), Panicked NilDereference)"
  by (cases "log_rejected out") simp

lemma flush_Output_out_of_range:
  "failed \<noteq> 0 \<Longrightarrow> snd (log_rejected out) \<Longrightarrow>
   list_ex rejected (drop (length records) out) \<Longrightarrow>
   flush dur records (Output failed out # rs) a =
     (PutRecordsCall records # fst (log_rejected out) @
        [LogPutFailures failed (dur a), Sleep (dur a)],
      Panicked IndexOutOfRange)"
  by (cases "log_rejected out") (simp add: backoff_eq failures_eq)

lemma flush_Output_retry:
  "failed \<noteq> 0 \<Longrightarrow> snd (log_rejected out) \<Longrightarrow>
   \<not> list_ex rejected (drop (length records) out) \<Longrightarrow>
   flush dur records (Output failed out # rs) a =
     (PutRecordsCall records # fst (log_rejected out) @
        [LogPutFailures failed (dur a), Sleep (dur a)] @
        fst (flush dur (failed_records records out) rs (Suc a)),
      snd (flush dur (failed_records records out) rs (Suc a)))"
  by (cases "log_rejected out")
    (simp add: backoff_eq failures_eq split: prod.splits)

declare flush.simps [simp del]

subsection \<open>What flush submits, and when it resets\<close>

lemma flush_calls_bounded:
  "b \<in> set (calls (fst (flush dur records rs a))) \<Longrightarrow>
   length b \<le> length records \<and> batch_bytes b \<le> batch_bytes records"
proof (induction rs arbitrary: records a)
  case Nil
  then show ?case by (simp add: flush_Nil)
next
  case (Cons r rs)
  show ?case
  proof (cases r)
    case TransportError
    with Cons show ?thesis
      by (auto simp only: flush_TransportError fst_conv calls.simps set_simps)
  next
    case (Output failed out)
    consider "failed = 0" | "failed \<noteq> 0" "\<not> snd (log_rejected out)"
      | "failed \<noteq> 0" "snd (log_rejected out)" "list_ex rejected (drop (length records) out)"
      | "failed \<noteq> 0" "snd (log_rejected out)" "\<not> list_ex rejected (drop (length records) out)"
      by blast
    then show ?thesis
    proof cases
      case 1
      with Cons.prems Output show ?thesis by (simp add: flush_Output_zero)
    next
      case 2
      with Cons.prems Output show ?thesis
        by (simp add: flush_Output_nil_message log_rejected_quiet)
    next
      case 3
      with Cons.prems Output show ?thesis
        by (simp add: flush_Output_out_of_range calls_append log_rejected_quiet)
    next
      case 4
      with Cons.prems Output
      have "b = records \<or> b \<in> set (calls (fst (flush dur (failed_records records out) rs (Suc a))))"
        by (simp add: flush_Output_retry calls_append log_rejected_quiet)
      then show ?thesis
      proof
        assume "b = records"
        then show ?thesis by simp
      next
        assume "b \<in> set (calls (fst (flush dur (failed_records records out) rs (Suc a))))"
        then have "length b \<le> length (failed_records records out) \<and>
                   batch_bytes b \<le> batch_bytes (failed_records records out)"
          by (rule Cons.IH)
        with failed_records_length [of records out] failed_records_bytes [of records out]
        show ?thesis by linarith
      qed
    qed
  qed
qed

lemma flush_calls_nonempty:
  "records \<noteq> [] \<Longrightarrow> list_all names_a_failure rs \<Longrightarrow>
   b \<in> set (calls (fst (flush dur records rs a))) \<Longrightarrow> b \<noteq> []"
proof (induction rs arbitrary: records a)
  case Nil
  then show ?case by (simp add: flush_Nil)
next
  case (Cons r rs)
  show ?case
  proof (cases r)
    case TransportError
    with Cons.prems have "b = records \<or> b \<in> set (calls (fst (flush dur records rs (Suc a))))"
      by (simp add: flush_TransportError)
    with Cons.IH [of records "Suc a"] Cons.prems show ?thesis by auto
  next
    case (Output failed out)
    consider "failed = 0" | "failed \<noteq> 0" "\<not> snd (log_rejected out)"
      | "failed \<noteq> 0" "snd (log_rejected out)" "list_ex rejected (drop (length records) out)"
      | "failed \<noteq> 0" "snd (log_rejected out)" "\<not> list_ex rejected (drop (length records) out)"
      by blast
    then show ?thesis
    proof cases
      case 1
      with Cons.prems Output show ?thesis by (simp add: flush_Output_zero)
    next
      case 2
      with Cons.prems Output show ?thesis
        by (simp add: flush_Output_nil_message log_rejected_quiet)
    next
      case 3
      with Cons.prems Output show ?thesis
        by (simp add: flush_Output_out_of_range calls_append log_rejected_quiet)
    next
      case 4
      from Cons.prems Output 4 have "list_ex rejected out" by simp
      then have "list_ex rejected (take (length records) out @ drop (length records) out)"
        by simp
      with 4 have "list_ex rejected (take (length records) out)"
        unfolding list_ex_append by blast
      then have ne: "failed_records records out \<noteq> []"
        by (rule failed_records_nonempty)
      from Cons.prems Output 4
      have "b = records \<or> b \<in> set (calls (fst (flush dur (failed_records records out) rs (Suc a))))"
        by (simp add: flush_Output_retry calls_append log_rejected_quiet)
      with Cons.IH [OF ne, of "Suc a"] Cons.prems show ?thesis by auto
    qed
  qed
qed

lemma flush_Returned:
  "snd (flush dur records rs a) = Returned a' rest \<Longrightarrow>
   a' = 0 \<and> (\<exists>used. rs = used @ rest) \<and> resets (fst (flush dur records rs a)) = 1 \<and>
   last (fst (flush dur records rs a)) = BackoffReset"
proof (induction rs arbitrary: records a)
  case Nil
  then show ?case by (simp add: flush_Nil)
next
  case (Cons r rs)
  show ?case
  proof (cases r)
    case TransportError
    with Cons.prems have "snd (flush dur records rs (Suc a)) = Returned a' rest"
      by (simp add: flush_TransportError)
    from Cons.IH [OF this] TransportError show ?thesis
      by (auto simp add: flush_TransportError)
  next
    case (Output failed out)
    consider "failed = 0" | "failed \<noteq> 0" "\<not> snd (log_rejected out)"
      | "failed \<noteq> 0" "snd (log_rejected out)" "list_ex rejected (drop (length records) out)"
      | "failed \<noteq> 0" "snd (log_rejected out)" "\<not> list_ex rejected (drop (length records) out)"
      by blast
    then show ?thesis
    proof cases
      case 1
      with Cons.prems Output show ?thesis by (auto simp add: flush_Output_zero)
    next
      case 2
      with Cons.prems Output show ?thesis by (simp add: flush_Output_nil_message)
    next
      case 3
      with Cons.prems Output show ?thesis by (simp add: flush_Output_out_of_range)
    next
      case 4
      with Cons.prems Output
      have "snd (flush dur (failed_records records out) rs (Suc a)) = Returned a' rest"
        by (simp add: flush_Output_retry)
      from Cons.IH [OF this] Output 4 show ?thesis
        by (auto simp add: flush_Output_retry resets_append log_rejected_quiet)
    qed
  qed
qed

lemma flush_not_Returned:
  "\<forall>a' rest. snd (flush dur records rs a) \<noteq> Returned a' rest \<Longrightarrow>
   resets (fst (flush dur records rs a)) = 0"
proof (induction rs arbitrary: records a)
  case Nil
  then show ?case by (simp add: flush_Nil)
next
  case (Cons r rs)
  show ?case
  proof (cases r)
    case TransportError
    with Cons.prems have "\<forall>a' rest. snd (flush dur records rs (Suc a)) \<noteq> Returned a' rest"
      by (simp add: flush_TransportError)
    from Cons.IH [OF this] TransportError show ?thesis
      by (simp add: flush_TransportError)
  next
    case (Output failed out)
    consider "failed = 0" | "failed \<noteq> 0" "\<not> snd (log_rejected out)"
      | "failed \<noteq> 0" "snd (log_rejected out)" "list_ex rejected (drop (length records) out)"
      | "failed \<noteq> 0" "snd (log_rejected out)" "\<not> list_ex rejected (drop (length records) out)"
      by blast
    then show ?thesis
    proof cases
      case 1
      with Cons.prems Output have False by (auto simp add: flush_Output_zero)
      then show ?thesis ..
    next
      case 2
      with Cons.prems Output show ?thesis
        by (simp add: flush_Output_nil_message log_rejected_quiet)
    next
      case 3
      with Cons.prems Output show ?thesis
        by (simp add: flush_Output_out_of_range resets_append log_rejected_quiet)
    next
      case 4
      with Cons.prems Output
      have "\<forall>a' rest. snd (flush dur (failed_records records out) rs (Suc a)) \<noteq> Returned a' rest"
        by (simp add: flush_Output_retry)
      from Cons.IH [OF this] Output 4 show ?thesis
        by (simp add: flush_Output_retry resets_append log_rejected_quiet)
    qed
  qed
qed

subsection \<open>Retry after a partial failure\<close>

lemma failed_records_subseq: "subseq (failed_records records response) records"
  by (induction records response rule: failed_records.induct) auto

lemma flush_calls_hd:
  "\<exists>later. calls (fst (flush dur records rs a)) = records # later"
proof (cases rs)
  case Nil
  then show ?thesis by (simp add: flush_Nil)
next
  case (Cons r rs')
  show ?thesis
  proof (cases r)
    case TransportError
    with Cons show ?thesis by (simp add: flush_TransportError)
  next
    case (Output failed out)
    consider "failed = 0" | "failed \<noteq> 0" "\<not> snd (log_rejected out)"
      | "failed \<noteq> 0" "snd (log_rejected out)" "list_ex rejected (drop (length records) out)"
      | "failed \<noteq> 0" "snd (log_rejected out)" "\<not> list_ex rejected (drop (length records) out)"
      by blast
    then show ?thesis
    proof cases
      case 1
      with Cons Output show ?thesis by (simp add: flush_Output_zero)
    next
      case 2
      with Cons Output show ?thesis by (simp add: flush_Output_nil_message)
    next
      case 3
      with Cons Output show ?thesis by (simp add: flush_Output_out_of_range)
    next
      case 4
      with Cons Output show ?thesis by (simp add: flush_Output_retry)
    qed
  qed
qed

text \<open>
  Claim C4.  A structured result reports \<open>failed\<close> failures for a batch: at most one
  result entry per record, \<open>failed\<close> of them with an error code, \<open>failed\<close> not zero.
  Then \<open>failures\<close> returns the records at the positions of those entries; there are
  \<open>failed\<close> of them, and they are a subsequence of the original batch: the same
  entries in the same relative order.  The submission that follows the first one, if
  there is one, is of exactly that batch; there is one when every entry with an error
  code has a message for the log line to read.
\<close>

theorem retry_narrowing:
  assumes "length out \<le> length records"
    and "failed = int (length (filter rejected out))"
    and "failed \<noteq> 0"
  shows "failures records out = Inr (failed_records records out) \<and>
         int (length (failed_records records out)) = failed \<and>
         subseq (failed_records records out) records \<and>
         (\<forall>b later. calls (fst (flush dur records (Output failed out # rs) a)) =
              records # b # later \<longrightarrow> b = failed_records records out) \<and>
         (list_all explained out \<longrightarrow>
            (\<exists>later. calls (fst (flush dur records (Output failed out # rs) a)) =
               records # failed_records records out # later))"
proof -
  from assms(1) have inb: "\<not> list_ex rejected (drop (length records) out)"
    by simp
  then have f: "failures records out = Inr (failed_records records out)"
    by (simp add: failures_eq)
  from assms(1,2) have n: "int (length (failed_records records out)) = failed"
    by (simp add: failed_records_count)
  obtain later where
    l: "calls (fst (flush dur (failed_records records out) rs (Suc a))) =
       failed_records records out # later"
    using flush_calls_hd by blast
  have c: "calls (fst (flush dur records (Output failed out # rs) a)) =
      (if list_all explained out then records # failed_records records out # later
       else [records])"
    using assms(3) inb l
    by (simp add: flush_Output_retry flush_Output_nil_message calls_append
        log_rejected_quiet log_rejected_ok)
  from f n c failed_records_subseq [of records out] show ?thesis
    by simp
qed

theorem retry_narrowing_witness:
  "failures [r1, r2, r3] [accepted, throttled, accepted] = Inr [r2] \<and>
   (\<exists>later. calls (fst (flush doubling [r1, r2, r3]
      [Output 1 [accepted, throttled, accepted], Output 0 [accepted]] 0)) =
        [r1, r2, r3] # [r2] # later)"
  using retry_narrowing [of "[accepted, throttled, accepted]" "[r1, r2, r3]" 1
      doubling "[Output 0 [accepted]]" 0]
  by (simp add: rejected_def explained_def accepted_def throttled_def)

subsection \<open>Retry after a transport error\<close>

lemma flush_transport_rounds:
  "flush dur records (replicate k TransportError @ rs) a =
     (concat (map (\<lambda>i. [PutRecordsCall records, LogFlushError,
                         LogPutFailures (int (length records)) (dur (a + i)),
                         Sleep (dur (a + i))]) [0..<k]) @
        fst (flush dur records rs (a + k)),
      snd (flush dur records rs (a + k)))"
proof (induction k arbitrary: a)
  case 0
  then show ?case by simp
next
  case (Suc k)
  show ?case
    by (simp only: replicate_Suc append_Cons flush_TransportError Suc.IH map_upt_Suc)
      simp
qed

lemma flush_transport_calls:
  "calls (fst (flush dur records (replicate k TransportError @ rs) a)) =
     replicate k records @ calls (fst (flush dur records rs (a + k)))"
  by (induction k arbitrary: a) (simp_all add: flush_TransportError)

lemma flush_transport_sleeps:
  "sleeps (fst (flush dur records (replicate k TransportError @ rs) a)) =
     map dur [a..<a + k] @ sleeps (fst (flush dur records rs (a + k)))"
proof (induction k arbitrary: a)
  case 0
  then show ?case by simp
next
  case (Suc k)
  have "[a..<a + Suc k] = a # [Suc a..<Suc a + k]"
    by (simp add: upt_conv_Cons)
  then show ?case
    by (simp add: flush_TransportError Suc.IH)
qed

text \<open>
  Claim C5.  On \<open>k\<close> transport errors in a row \<open>flush\<close> makes \<open>k\<close> rounds, each
  of them the submission of the whole batch, the error log, one call of \<open>Duration\<close>
  and the sleep of that duration, and then goes on with the same batch as if called
  afresh.  For every \<open>k\<close>: after \<open>k\<close> errors the batch has been submitted \<open>k + 1\<close>
  times unchanged and \<open>flush\<close> has not returned or given up; when the next
  response reports no failure, \<open>flush\<close> returns.
\<close>

theorem transport_error_retries_whole_batch:
  "flush dur records (replicate k TransportError @ rs) a =
     (concat (map (\<lambda>i. [PutRecordsCall records, LogFlushError,
                         LogPutFailures (int (length records)) (dur (a + i)),
                         Sleep (dur (a + i))]) [0..<k]) @
        fst (flush dur records rs (a + k)),
      snd (flush dur records rs (a + k))) \<and>
   calls (fst (flush dur records (replicate k TransportError) a)) =
     replicate (Suc k) records \<and>
   sleeps (fst (flush dur records (replicate k TransportError) a)) = map dur [a..<a + k] \<and>
   snd (flush dur records (replicate k TransportError) a) = Pending \<and>
   calls (fst (flush dur records (replicate k TransportError @ Output 0 out # rs) a)) =
     replicate (Suc k) records \<and>
   snd (flush dur records (replicate k TransportError @ Output 0 out # rs) a) =
     Returned 0 rs"
proof -
  have 1: "calls (fst (flush dur records (replicate k TransportError) a)) =
      replicate (Suc k) records"
    using flush_transport_calls [of dur records k "[]" a]
    by (simp add: flush_Nil replicate_append_same)
  have 2: "sleeps (fst (flush dur records (replicate k TransportError) a)) =
      map dur [a..<a + k]"
    using flush_transport_sleeps [of dur records k "[]" a] by (simp add: flush_Nil)
  have 3: "snd (flush dur records (replicate k TransportError) a) = Pending"
    using flush_transport_rounds [of dur records k "[]" a] by (simp add: flush_Nil)
  have 4: "calls (fst (flush dur records (replicate k TransportError @ Output 0 out # rs) a)) =
      replicate (Suc k) records"
    by (simp add: flush_transport_calls flush_Output_zero replicate_append_same)
  have 5: "snd (flush dur records (replicate k TransportError @ Output 0 out # rs) a) =
      Returned 0 rs"
    by (simp add: flush_transport_rounds flush_Output_zero)
  from flush_transport_rounds 1 2 3 4 5 show ?thesis by blast
qed

theorem transport_error_retries_whole_batch_witness:
  "calls (fst (flush doubling [r1, r2] [TransportError, TransportError, TransportError] 0)) =
     [[r1, r2], [r1, r2], [r1, r2], [r1, r2]] \<and>
   sleeps (fst (flush doubling [r1, r2] [TransportError, TransportError, TransportError] 0)) =
     [100, 200, 400] \<and>
   snd (flush doubling [r1, r2] [TransportError, TransportError, TransportError] 0) = Pending"
  using transport_error_retries_whole_batch [of doubling "[r1, r2]" 3 "[]" 0]
  by (simp add: numeral_3_eq_3 doubling_def upt_conv_Cons flush_Nil)

subsection \<open>Backoff\<close>

text \<open>
  Claim C6, as stated, fails: a batch of three records with one rejected record and
  the same batch with two rejected records sleep the same duration before the retry.
\<close>

theorem backoff_not_proportional_counterexample:
  "sleeps (fst (flush doubling [r1, r2, r3] [Output 1 [accepted, throttled, accepted]] 0)) = [100] \<and>
   sleeps (fst (flush doubling [r1, r2, r3] [Output 2 [throttled, throttled, accepted]] 0)) = [100]"
  by (simp add: flush.simps backoff_eq failures_def accepted_def throttled_def doubling_def)

text \<open>
  Claim C6, amended.  On a structured partial failure the duration slept before the
  retry is the one \<open>Duration()\<close> returns, which the policy computes from its attempt
  counter alone; the number of failed records goes into the log line and nowhere
  else.  The first sleep of such a \<open>flush\<close>, if any, has that duration; the log
  line and the sleep are there when every entry with an error code has a message.
\<close>

theorem partial_failure_sleeps_policy_duration:
  assumes "failed \<noteq> 0"
  shows "(\<forall>d ds. sleeps (fst (flush dur records (Output failed out # rs) a)) = d # ds \<longrightarrow>
            d = fst (Duration dur a)) \<and>
         fst (Duration dur a) = dur a \<and>
         (list_all explained out \<longrightarrow>
            (\<exists>later. fst (flush dur records (Output failed out # rs) a) =
               PutRecordsCall records # fst (log_rejected out) @
                 [LogPutFailures failed (dur a), Sleep (dur a)] @ later))"
proof -
  consider "\<not> list_all explained out"
    | "list_all explained out" "list_ex rejected (drop (length records) out)"
    | "list_all explained out" "\<not> list_ex rejected (drop (length records) out)"
    by blast
  then show ?thesis
  proof cases
    case 1
    with assms show ?thesis
      by (simp add: flush_Output_nil_message log_rejected_quiet log_rejected_ok Duration_def)
  next
    case 2
    with assms show ?thesis
      by (simp add: flush_Output_out_of_range sleeps_append log_rejected_quiet
          log_rejected_ok Duration_def)
  next
    case 3
    with assms show ?thesis
      by (simp add: flush_Output_retry sleeps_append log_rejected_quiet
          log_rejected_ok Duration_def)
  qed
qed

theorem partial_failure_sleeps_policy_duration_witness:
  "(\<exists>later. fst (flush doubling [r1, r2, r3] [Output 1 [accepted, throttled, accepted]] 1) =
      PutRecordsCall [r1, r2, r3] #
      LogPushRecord ''ProvisionedThroughputExceededException'' ''Rate exceeded'' #
      LogPutFailures 1 200 # Sleep 200 # later) \<and>
   (\<exists>later. fst (flush doubling [r1, r2, r3] [Output 2 [throttled, throttled, accepted]] 1) =
      PutRecordsCall [r1, r2, r3] #
      LogPushRecord ''ProvisionedThroughputExceededException'' ''Rate exceeded'' #
      LogPushRecord ''ProvisionedThroughputExceededException'' ''Rate exceeded'' #
      LogPutFailures 2 200 # Sleep 200 # later)"
  using partial_failure_sleeps_policy_duration
    [of 1 doubling "[r1, r2, r3]" "[accepted, throttled, accepted]" "[]" 1]
    partial_failure_sleeps_policy_duration
    [of 2 doubling "[r1, r2, r3]" "[throttled, throttled, accepted]" "[]" 1]
  by (simp add: explained_def throttled_def accepted_def doubling_def)

text \<open>
  Claim C7.  A structured result with zero failures makes \<open>flush\<close> call \<open>Reset\<close> and
  return, so that the next call of \<open>Duration\<close> gives the baseline \<open>dur 0\<close>.  Whenever
  \<open>flush\<close> returns, \<open>Reset\<close> has been called exactly once, as its last action, and
  the backoff of the next failure sleeps \<open>dur 0\<close>; a \<open>flush\<close> that does not return
  has not called \<open>Reset\<close>.
\<close>

theorem reset_after_successful_flush:
  "flush dur records (Output 0 out # rs) a =
     ([PutRecordsCall records, BackoffReset], Returned (Reset a) rs) \<and>
   fst (Duration dur (Reset a)) = dur 0 \<and>
   (\<forall>a' rest. snd (flush dur records rs a) = Returned a' rest \<longrightarrow>
      a' = Reset a \<and> resets (fst (flush dur records rs a)) = 1 \<and>
      last (fst (flush dur records rs a)) = BackoffReset \<and>
      sleeps (fst (backoff dur n a')) = [dur 0]) \<and>
   ((\<forall>a' rest. snd (flush dur records rs a) \<noteq> Returned a' rest) \<longrightarrow>
      resets (fst (flush dur records rs a)) = 0)"
  using flush_Returned [of dur records rs a] flush_not_Returned [of dur records rs a]
  by (auto simp add: flush_Output_zero Reset_def Duration_def backoff_eq)

theorem reset_after_successful_flush_witness:
  "snd (flush doubling [r1, r2, r3]
      [TransportError, Output 1 [accepted, throttled, accepted], Output 0 [accepted]] 0) =
     Returned 0 [] \<and>
   resets (fst (flush doubling [r1, r2, r3]
      [TransportError, Output 1 [accepted, throttled, accepted], Output 0 [accepted]] 0)) = 1 \<and>
   sleeps (fst (backoff doubling 1 0)) = [100]"
  using reset_after_successful_flush [where dur = doubling and records = "[r1, r2, r3]"
      and out = "[accepted]" and a = 0 and n = 1
      and rs = "[TransportError, Output 1 [accepted, throttled, accepted], Output 0 [accepted]]"]
  by (simp add: flush.simps backoff_eq failures_def accepted_def throttled_def doubling_def Reset_def)

subsection \<open>Index bounds in failures\<close>

lemma exchanges_Nil: "exchanges dur records [] a = []"
  by (simp add: exchanges_def)

lemma index_fault_iff:
  "snd (flush dur records rs a) = Panicked IndexOutOfRange \<longleftrightarrow>
   list_ex (case_prod index_fault) (exchanges dur records rs a)"
proof (induction rs arbitrary: records a)
  case Nil
  then show ?case by (simp add: exchanges_def flush_Nil)
next
  case (Cons r rs)
  show ?case
  proof (cases r)
    case TransportError
    with Cons.IH [of records "Suc a"] show ?thesis
      by (simp add: exchanges_def flush_TransportError)
  next
    case (Output failed out)
    consider "failed = 0" | "failed \<noteq> 0" "\<not> list_all explained out"
      | "failed \<noteq> 0" "list_all explained out" "list_ex rejected (drop (length records) out)"
      | "failed \<noteq> 0" "list_all explained out" "\<not> list_ex rejected (drop (length records) out)"
      by blast
    then show ?thesis
    proof cases
      case 1
      with Output show ?thesis by (simp add: exchanges_def flush_Output_zero)
    next
      case 2
      with Output show ?thesis
        by (simp add: exchanges_def flush_Output_nil_message log_rejected_quiet log_rejected_ok)
    next
      case 3
      with Output show ?thesis
        by (simp add: exchanges_def flush_Output_out_of_range calls_append
            log_rejected_quiet log_rejected_ok)
    next
      case 4
      with Output Cons.IH [of "failed_records records out" "Suc a"] show ?thesis
        by (simp add: exchanges_def flush_Output_retry calls_append
            log_rejected_quiet log_rejected_ok)
    qed
  qed
qed

lemma one_entry_no_fault: "one_entry_per_record b r \<Longrightarrow> \<not> index_fault b r"
  by (cases r) simp_all

lemma one_entry_per_record_safe:
  assumes "list_all (case_prod one_entry_per_record) (exchanges dur records rs a)"
  shows "snd (flush dur records rs a) \<noteq> Panicked IndexOutOfRange"
proof -
  from assms have "\<not> list_ex (case_prod index_fault) (exchanges dur records rs a)"
    by (auto simp add: list_all_iff list_ex_iff dest: one_entry_no_fault)
  then show ?thesis by (simp add: index_fault_iff)
qed

text \<open>
  Claim C10, as stated, fails in its second half: a response longer than the batch
  whose surplus entries carry no error code makes \<open>failures\<close> index nothing out of
  bounds.
\<close>

theorem failures_longer_response_counterexample:
  "length [accepted, accepted] > length [r1] \<and> failures [r1] [accepted, accepted] = Inr []"
  by (simp add: failures_def accepted_def)

text \<open>
  Claim C10, amended.  When the response is no longer than the batch every access
  \<open>records[i]\<close> of \<open>failures\<close> is in bounds.  With a longer response an access is out
  of bounds exactly when an entry at a position from \<open>len(records)\<close> on carries an
  error code; no other panic can come from \<open>failures\<close>.  So the index safety of every
  \<open>flush\<close> depends on the submission capability returning no such entry: a \<open>flush\<close>
  panics with an index out of range exactly when one of its submissions, the first or
  a retry, is answered by an index fault.  In particular it does not when every
  response has one entry per record of the submission it answers.
\<close>

theorem failures_index_bounds:
  "(length response \<le> length records \<longrightarrow>
      failures records response = Inr (failed_records records response)) \<and>
   (failures records response = Inl IndexOutOfRange \<longleftrightarrow>
      list_ex rejected (drop (length records) response)) \<and>
   (\<forall>e. failures records response = Inl e \<longrightarrow> e = IndexOutOfRange) \<and>
   (snd (flush dur records rs a) = Panicked IndexOutOfRange \<longleftrightarrow>
      list_ex (case_prod index_fault) (exchanges dur records rs a)) \<and>
   (list_all (case_prod one_entry_per_record) (exchanges dur records rs a) \<longrightarrow>
      snd (flush dur records rs a) \<noteq> Panicked IndexOutOfRange)"
  using index_fault_iff [of dur records rs a] one_entry_per_record_safe [of dur records rs a]
  by (simp add: failures_eq)

theorem failures_index_bounds_witness:
  "failures [r1, r2] [throttled, accepted] = Inr [r1] \<and>
   failures [r1] [accepted, throttled] = Inl IndexOutOfRange \<and>
   failures [r1] [throttled, accepted] \<noteq> Inl IndexOutOfRange \<and>
   snd (flush doubling [r1, r2]
     [Output 1 [throttled, accepted], Output 1 [accepted, throttled]] 0) =
     Panicked IndexOutOfRange \<and>
   snd (flush doubling [r1, r2]
     [Output 1 [throttled, accepted], Output 1 [throttled]] 0) \<noteq> Panicked IndexOutOfRange"
  using failures_index_bounds [where response = "[throttled, accepted]" and records = "[r1, r2]"
      and dur = doubling and a = 0
      and rs = "[Output 1 [throttled, accepted], Output 1 [accepted, throttled]]"]
    failures_index_bounds [where response = "[accepted, throttled]" and records = "[r1]"
      and dur = doubling and a = 0 and rs = "[]"]
    failures_index_bounds [where response = "[throttled, accepted]" and records = "[r1]"
      and dur = doubling and a = 0 and rs = "[]"]
    failures_index_bounds [where response = "[throttled, accepted]" and records = "[r1, r2]"
      and dur = doubling and a = 0
      and rs = "[Output 1 [throttled, accepted], Output 1 [throttled]]"]
  by (simp add: rejected_def explained_def accepted_def throttled_def exchanges_def
      flush.simps backoff_eq failures_def)

subsection \<open>The loop keeps its invariants\<close>

lemma batch_bytes_simps:
  "batch_bytes [] = 0"
  "batch_bytes (b @ [r]) = batch_bytes b + record_size r"
  by (simp_all add: batch_bytes_def record_size_def)

lemma flush_buf_trace:
  "trace (flush_buf dur s) = trace s @ fst (flush dur (buf s) (script s) (attempt s))"
  by (simp add: flush_buf_def split: prod.splits outcome.splits)

lemma flush_buf_Running:
  "status (flush_buf dur s) = Running \<Longrightarrow> status s = Running \<Longrightarrow>
   buf (flush_buf dur s) = [] \<and> bufSize (flush_buf dur s) = 0 \<and>
   drain (flush_buf dur s) = drain s"
  by (simp add: flush_buf_def split: prod.splits outcome.splits)

lemma flush_buf_script:
  assumes "list_all P (script s)"
  shows "list_all P (script (flush_buf dur s))"
proof -
  obtain tr res where f: "flush dur (buf s) (script s) (attempt s) = (tr, res)"
    by (cases "flush dur (buf s) (script s) (attempt s)")
  show ?thesis
  proof (cases res)
    case (Returned a' rest)
    with f have "snd (flush dur (buf s) (script s) (attempt s)) = Returned a' rest"
      by simp
    from flush_Returned [OF this] obtain used where "script s = used @ rest" by blast
    with assms have "list_all P rest" by simp
    with f Returned show ?thesis by (simp add: flush_buf_def)
  next
    case (Panicked e)
    with f assms show ?thesis by (simp add: flush_buf_def)
  next
    case Pending
    with f show ?thesis by (simp add: flush_buf_def)
  qed
qed

lemma flush_buf_within_limits:
  assumes "within_limits cfg (buf s)" and "list_all (within_limits cfg) (calls (trace s))"
  shows "list_all (within_limits cfg) (calls (trace (flush_buf dur s)))"
proof -
  have "within_limits cfg b" if "b \<in> set (calls (fst (flush dur (buf s) (script s) (attempt s))))" for b
    using flush_calls_bounded [OF that] assms(1) by (simp add: within_limits_def)
  with assms(2) show ?thesis
    by (auto simp add: flush_buf_trace calls_append list_all_iff)
qed

lemma flush_buf_nonempty:
  assumes "buf s \<noteq> []" and "list_all names_a_failure (script s)"
    and "list_all (\<lambda>b. b \<noteq> []) (calls (trace s))"
  shows "list_all (\<lambda>b. b \<noteq> []) (calls (trace (flush_buf dur s)))"
proof -
  have "b \<noteq> []" if "b \<in> set (calls (fst (flush dur (buf s) (script s) (attempt s))))" for b
    using flush_calls_nonempty [OF assms(1,2) that] .
  with assms(3) show ?thesis
    by (auto simp add: flush_buf_trace calls_append list_all_iff)
qed


lemma record_limit_below_request_limit: "maxRecordSize \<le> maxRequestSize"
  by (simp add: maxRecordSize_val maxRequestSize_val)

lemma limits_flush_buf:
  assumes "1 \<le> BufferSize cfg" and "within_limits cfg (buf s)"
    and "list_all (within_limits cfg) (calls (trace s))" and "status s = Running"
  shows "limits_inv cfg (flush_buf dur s)"
proof -
  have "list_all (within_limits cfg) (calls (trace (flush_buf dur s)))"
    using assms(2,3) by (rule flush_buf_within_limits)
  moreover have "bufSize (flush_buf dur s) = batch_bytes (buf (flush_buf dur s)) \<and>
      bufSize (flush_buf dur s) \<le> maxRequestSize \<and>
      int (length (buf (flush_buf dur s))) < BufferSize cfg"
    if "status (flush_buf dur s) = Running"
    using flush_buf_Running [OF that assms(4)] assms(1) by (simp add: batch_bytes_simps)
  ultimately show ?thesis by (auto simp add: limits_inv_def)
qed

lemma on_record_unfold:
  "on_record cfg dur record qlen s =
     (let s1 = (if bufSize s + record_size record > maxRequestSize then flush_buf dur s else s);
          s3 = (if int (length (buf s1 @ [record])) \<ge> BufferSize cfg
                then flush_buf dur (s1\<lparr>buf := buf s1 @ [record],
                                        bufSize := bufSize s1 + record_size record\<rparr>)
                else s1\<lparr>buf := buf s1 @ [record], bufSize := bufSize s1 + record_size record\<rparr>)
      in if status s1 \<noteq> Running then s1
         else if status s3 \<noteq> Running then s3
         else if drain s3 \<and> qlen = 0 then s3\<lparr>status := Exited\<rparr>
         else s3)"
  by (simp add: on_record_def Let_def record_size_def)

lemma on_record_limits:
  assumes B: "1 \<le> BufferSize cfg" and R: "record_size record \<le> maxRecordSize"
    and I: "limits_inv cfg s" and run: "status s = Running"
  shows "limits_inv cfg (on_record cfg dur record qlen s)"
proof -
  define s1 where "s1 = (if bufSize s + record_size record > maxRequestSize then flush_buf dur s else s)"
  define s2 where "s2 = s1\<lparr>buf := buf s1 @ [record], bufSize := bufSize s1 + record_size record\<rparr>"
  define s3 where "s3 = (if int (length (buf s2)) \<ge> BufferSize cfg then flush_buf dur s2 else s2)"
  from I run have wl: "within_limits cfg (buf s)"
    and tr: "list_all (within_limits cfg) (calls (trace s))"
    by (simp_all add: limits_inv_def within_limits_def)
  have I1: "limits_inv cfg s1"
    unfolding s1_def using I limits_flush_buf [OF B wl tr run] by simp
  have room: "bufSize s1 + record_size record \<le> maxRequestSize" if r1: "status s1 = Running"
  proof (cases "bufSize s + record_size record > maxRequestSize")
    case True
    with r1 have "bufSize s1 = 0"
      using flush_buf_Running [of dur s] run by (simp add: s1_def)
    with R record_limit_below_request_limit show ?thesis by simp
  next
    case False
    then show ?thesis by (simp add: s1_def)
  qed
  have I3: "limits_inv cfg s3" if r1: "status s1 = Running"
  proof -
    from I1 r1 have a: "bufSize s1 = batch_bytes (buf s1)" "int (length (buf s1)) < BufferSize cfg"
      and t1: "list_all (within_limits cfg) (calls (trace s1))"
      by (simp_all add: limits_inv_def)
    from a room [OF r1] have wl2: "within_limits cfg (buf s2)"
      by (simp add: s2_def within_limits_def batch_bytes_simps)
    from t1 have t2: "list_all (within_limits cfg) (calls (trace s2))"
      by (simp add: s2_def)
    from r1 have r2: "status s2 = Running" by (simp add: s2_def)
    show ?thesis
    proof (cases "int (length (buf s2)) \<ge> BufferSize cfg")
      case True
      then show ?thesis
        using limits_flush_buf [OF B wl2 t2 r2] by (simp add: s3_def)
    next
      case False
      with a room [OF r1] t2 show ?thesis
        by (simp add: s3_def s2_def limits_inv_def batch_bytes_simps)
    qed
  qed
  have res: "on_record cfg dur record qlen s =
      (if status s1 \<noteq> Running then s1
       else if status s3 \<noteq> Running then s3
       else if drain s3 \<and> qlen = 0 then s3\<lparr>status := Exited\<rparr>
       else s3)"
    by (simp add: on_record_unfold Let_def s1_def s2_def s3_def)
  show ?thesis
    using I1 I3 by (auto simp add: res limits_inv_def)
qed

lemma on_tick_limits:
  assumes "1 \<le> BufferSize cfg" and "limits_inv cfg s" and "status s = Running"
  shows "limits_inv cfg (on_tick dur s)"
proof -
  from assms(2,3) have "within_limits cfg (buf s)"
    and "list_all (within_limits cfg) (calls (trace s))"
    by (simp_all add: limits_inv_def within_limits_def)
  from limits_flush_buf [OF assms(1) this assms(3)] assms(2)
  show ?thesis by (simp add: on_tick_def)
qed

lemma on_done_limits: "limits_inv cfg s \<Longrightarrow> limits_inv cfg (on_done qlen s)"
  by (auto simp add: on_done_def limits_inv_def Let_def)

lemma nonempty_flush_buf:
  assumes "buf s \<noteq> []" and "nonempty_inv s" and "status s = Running"
  shows "nonempty_inv (flush_buf dur s)"
proof -
  from assms(2) have sc: "list_all names_a_failure (script s)"
    and tr: "list_all (\<lambda>b. b \<noteq> []) (calls (trace s))"
    by (simp_all add: nonempty_inv_def)
  have "list_all (\<lambda>b. b \<noteq> []) (calls (trace (flush_buf dur s)))"
    using assms(1) sc tr by (rule flush_buf_nonempty)
  moreover have "list_all names_a_failure (script (flush_buf dur s))"
    using sc by (rule flush_buf_script)
  moreover have "bufSize (flush_buf dur s) = 0" if "status (flush_buf dur s) = Running"
    using flush_buf_Running [OF that assms(3)] by simp
  ultimately show ?thesis by (simp add: nonempty_inv_def)
qed

lemma on_record_nonempty:
  assumes R: "record_size record \<le> maxRecordSize"
    and I: "nonempty_inv s" and run: "status s = Running"
  shows "nonempty_inv (on_record cfg dur record qlen s)"
proof -
  define s1 where "s1 = (if bufSize s + record_size record > maxRequestSize then flush_buf dur s else s)"
  define s2 where "s2 = s1\<lparr>buf := buf s1 @ [record], bufSize := bufSize s1 + record_size record\<rparr>"
  define s3 where "s3 = (if int (length (buf s2)) \<ge> BufferSize cfg then flush_buf dur s2 else s2)"
  have I1: "nonempty_inv s1"
  proof (cases "bufSize s + record_size record > maxRequestSize")
    case True
    have "buf s \<noteq> []"
    proof
      assume "buf s = []"
      with I run have "bufSize s = 0" by (simp add: nonempty_inv_def)
      with True R record_limit_below_request_limit show False by simp
    qed
    from nonempty_flush_buf [OF this I run] True show ?thesis by (simp add: s1_def)
  next
    case False
    with I show ?thesis by (simp add: s1_def)
  qed
  have I2: "nonempty_inv s2"
    using I1 by (simp add: s2_def nonempty_inv_def)
  have I3: "nonempty_inv s3" if r1: "status s1 = Running"
  proof (cases "int (length (buf s2)) \<ge> BufferSize cfg")
    case True
    have ne: "buf s2 \<noteq> []" by (simp add: s2_def)
    from r1 have r2: "status s2 = Running" by (simp add: s2_def)
    from nonempty_flush_buf [OF ne I2 r2] True show ?thesis by (simp add: s3_def)
  next
    case False
    with I2 show ?thesis by (simp add: s3_def)
  qed
  have res: "on_record cfg dur record qlen s =
      (if status s1 \<noteq> Running then s1
       else if status s3 \<noteq> Running then s3
       else if drain s3 \<and> qlen = 0 then s3\<lparr>status := Exited\<rparr>
       else s3)"
    by (simp add: on_record_unfold Let_def s1_def s2_def s3_def)
  show ?thesis
    using I1 I3 by (simp add: res nonempty_inv_def)
qed

lemma on_tick_nonempty:
  assumes "nonempty_inv s" and "status s = Running"
  shows "nonempty_inv (on_tick dur s)"
proof (cases "buf s = []")
  case True
  with assms(1) show ?thesis by (simp add: on_tick_def)
next
  case False
  from nonempty_flush_buf [OF False assms] False show ?thesis by (simp add: on_tick_def)
qed

lemma on_done_nonempty: "nonempty_inv s \<Longrightarrow> nonempty_inv (on_done qlen s)"
  by (simp add: on_done_def nonempty_inv_def Let_def)

lemma loop_invariant:
  assumes rec: "\<And>record qlen s. Q s \<Longrightarrow> status s = Running \<Longrightarrow>
      record_size record \<le> maxRecordSize \<Longrightarrow> Q (on_record cfg dur record qlen s)"
    and tick: "\<And>s. Q s \<Longrightarrow> status s = Running \<Longrightarrow> Q (on_tick dur s)"
    and don: "\<And>qlen s. Q s \<Longrightarrow> status s = Running \<Longrightarrow> Q (on_done qlen s)"
  shows "list_all sized sel \<Longrightarrow> Q s \<Longrightarrow> Q (loop cfg dur sel s)"
proof (induction sel arbitrary: s)
  case Nil
  then show ?case by simp
next
  case (Cons ev sel)
  show ?case
  proof (cases "status s = Running")
    case False
    with Cons.prems show ?thesis by simp
  next
    case True
    have "Q (loop_step cfg dur ev s)"
    proof (cases ev)
      case (Record r qlen)
      with Cons.prems True rec show ?thesis by simp
    next
      case Tick
      with Cons.prems True tick show ?thesis by simp
    next
      case (Done qlen)
      with Cons.prems True don show ?thesis by simp
    qed
    with Cons True show ?thesis by simp
  qed
qed

lemma step_invariant:
  assumes rec: "\<And>record qlen s. Q s \<Longrightarrow> status s = Running \<Longrightarrow>
      record_size record \<le> maxRecordSize \<Longrightarrow> Q (on_record cfg dur record qlen s)"
    and tick: "\<And>s. Q s \<Longrightarrow> status s = Running \<Longrightarrow> Q (on_tick dur s)"
    and don: "\<And>qlen s. Q s \<Longrightarrow> status s = Running \<Longrightarrow> Q (on_done qlen s)"
    and crash: "\<And>s. Q s \<Longrightarrow> Q (s\<lparr>status := Crashed\<rparr>)"
    and st: "step cfg dur ev p = Some p'"
    and Q: "Q (assembler p)"
    and sz: "\<forall>r\<in>set (records_chan p @ sendq p). record_size r \<le> maxRecordSize"
  shows "Q (assembler p') \<and>
         (\<forall>r\<in>set (records_chan p' @ sendq p'). record_size r \<le> maxRecordSize)"
proof (cases ev)
  case (CallPut data partitionKey)
  show ?thesis
  proof (cases "length data + length partitionKey + length (Separator cfg) > maxRecordSize")
    case True
    with st CallPut Q sz show ?thesis
      by (auto simp add: Put_def split: if_splits)
  next
    case False
    then have "record_size \<lparr>Data = data @ Separator cfg, PartitionKey = partitionKey\<rparr>
        \<le> maxRecordSize"
      by (simp add: record_size_def)
    with st CallPut Q sz False show ?thesis
      by (auto simp add: Put_def split: if_splits)
  qed
next
  case Receive
  from st Receive have run: "status (assembler p) = Running"
    by (simp split: if_splits)
  show ?thesis
  proof (cases "receive (records_chan p) (sendq p)")
    case None
    with st Receive run Q crash sz show ?thesis
      by (auto split: if_splits)
  next
    case (Some got)
    obtain x q ws completed where got: "got = (x, q, ws, completed)"
      by (cases got)
    from Some got have "x # q @ ws = records_chan p @ sendq p"
      by (auto simp add: receive_def split: list.splits)
    with sz have "\<forall>r\<in>set (x # q @ ws). record_size r \<le> maxRecordSize"
      by simp
    then have x: "record_size x \<le> maxRecordSize"
      and rest: "\<forall>r\<in>set (q @ ws). record_size r \<le> maxRecordSize"
      by simp_all
    from rec [OF Q run x] rest st Receive run Some got show ?thesis
      by auto
  qed
next
  case TimerTick
  with st Q sz tick show ?thesis
    by (auto split: if_splits)
next
  case CallStop
  with st Q sz don show ?thesis
    by (auto split: if_splits)
qed

lemma run_invariant:
  assumes rec: "\<And>record qlen s. Q s \<Longrightarrow> status s = Running \<Longrightarrow>
      record_size record \<le> maxRecordSize \<Longrightarrow> Q (on_record cfg dur record qlen s)"
    and tick: "\<And>s. Q s \<Longrightarrow> status s = Running \<Longrightarrow> Q (on_tick dur s)"
    and don: "\<And>qlen s. Q s \<Longrightarrow> status s = Running \<Longrightarrow> Q (on_done qlen s)"
    and crash: "\<And>s. Q s \<Longrightarrow> Q (s\<lparr>status := Crashed\<rparr>)"
  shows "run cfg dur evs p = Some p' \<Longrightarrow> Q (assembler p) \<Longrightarrow>
     \<forall>r\<in>set (records_chan p @ sendq p). record_size r \<le> maxRecordSize \<Longrightarrow>
     Q (assembler p')"
proof (induction evs arbitrary: p)
  case Nil
  then show ?case by simp
next
  case (Cons ev evs)
  from Cons.prems(1) obtain p1 where s1: "step cfg dur ev p = Some p1"
    and r1: "run cfg dur evs p1 = Some p'"
    by (auto split: option.splits)
  from step_invariant [of Q cfg dur ev p p1, OF rec tick don crash s1 Cons.prems(2,3)]
  have "Q (assembler p1)"
    and "\<forall>r\<in>set (records_chan p1 @ sendq p1). record_size r \<le> maxRecordSize"
    by blast+
  with Cons.IH [OF r1] show ?case by blast
qed

lemma loop_init_limits: "1 \<le> BufferSize cfg \<Longrightarrow> limits_inv cfg (loop_init a rs)"
  by (simp add: limits_inv_def loop_init_def batch_bytes_simps)

lemma loop_init_nonempty: "list_all names_a_failure rs \<Longrightarrow> nonempty_inv (loop_init a rs)"
  by (simp add: nonempty_inv_def loop_init_def)

lemmas eval_defs = on_record_def on_tick_def on_done_def flush_buf_def loop_init_def New_def
  Put_def receive_def flush.simps backoff_eq failures_def Reset_def Let_def
  cfgA_def r1_def r2_def r3_def accepted_def throttled_def doubling_def
  maxRecordSize_val maxRequestSize_val

subsection \<open>Stop and the buffered records\<close>

text \<open>
  Claim C1.  Scenario A on the code: three accepted records, at most two in a batch,
  no tick, then \<open>Stop\<close>.  Under both schedules every \<open>Put\<close> returns no error, the
  loop submits the first two records and returns, which lets \<open>Stop\<close> return, and the
  third record is still in \<open>buf\<close>: it has been passed to no submission.
\<close>

theorem stop_drops_buffered_record:
  "run cfgA doubling stop_after_puts (New 0 scriptA) \<noteq> None \<and>
   run cfgA doubling stop_after_receives (New 0 scriptA) \<noteq> None \<and>
   puts (the (run cfgA doubling stop_after_puts (New 0 scriptA))) = [None, None, None] \<and>
   status (assembler (the (run cfgA doubling stop_after_puts (New 0 scriptA)))) = Exited \<and>
   calls (trace (assembler (the (run cfgA doubling stop_after_puts (New 0 scriptA))))) =
     [[r1, r2]] \<and>
   buf (assembler (the (run cfgA doubling stop_after_puts (New 0 scriptA)))) = [r3] \<and>
   puts (the (run cfgA doubling stop_after_receives (New 0 scriptA))) = [None, None, None] \<and>
   status (assembler (the (run cfgA doubling stop_after_receives (New 0 scriptA)))) = Exited \<and>
   calls (trace (assembler (the (run cfgA doubling stop_after_receives (New 0 scriptA))))) =
     [[r1, r2]] \<and>
   buf (assembler (the (run cfgA doubling stop_after_receives (New 0 scriptA)))) = [r3]"
  by (simp add: stop_after_puts_def stop_after_receives_def scriptA_def eval_defs)

subsection \<open>The limits of a batch\<close>

text \<open>
  Claim C2.  With a maximum batch count of at least one and every received record
  within \<open>maxRecordSize\<close>, every batch passed to the submission capability, by the
  loop or by a retry of \<open>flush\<close>, has at most \<open>maxRequestSize\<close> bytes and at most
  \<open>BufferSize\<close> records.  The same holds for every schedule of the producer, where
  the records come through \<open>Put\<close>.
\<close>

theorem batch_limits:
  assumes B: "1 \<le> BufferSize cfg"
  shows "(list_all sized sel \<longrightarrow>
            list_all (within_limits cfg) (calls (trace (loop cfg dur sel (loop_init a rs))))) \<and>
         (run cfg dur evs (New a rs) = Some p \<longrightarrow>
            list_all (within_limits cfg) (calls (trace (assembler p))))"
proof (intro conjI impI)
  assume "list_all sized sel"
  then have "limits_inv cfg (loop cfg dur sel (loop_init a rs))"
  proof (rule loop_invariant [where Q = "limits_inv cfg", rotated 3])
    show "limits_inv cfg (loop_init a rs)" using B by (rule loop_init_limits)
  qed (simp_all add: B on_record_limits on_tick_limits on_done_limits)
  then show "list_all (within_limits cfg) (calls (trace (loop cfg dur sel (loop_init a rs))))"
    by (simp add: limits_inv_def)
next
  assume "run cfg dur evs (New a rs) = Some p"
  then have "limits_inv cfg (assembler p)"
  proof (rule run_invariant [where Q = "limits_inv cfg", rotated 4])
    show "limits_inv cfg (assembler (New a rs))"
      using B by (simp add: New_def loop_init_limits)
    show "\<forall>r\<in>set (records_chan (New a rs) @ sendq (New a rs)). record_size r \<le> maxRecordSize"
      by (simp add: New_def)
    show "\<And>s. limits_inv cfg s \<Longrightarrow> limits_inv cfg (s\<lparr>status := Crashed\<rparr>)"
      by (simp add: limits_inv_def)
  qed (simp_all add: B on_record_limits on_tick_limits on_done_limits)
  then show "list_all (within_limits cfg) (calls (trace (assembler p)))"
    by (simp add: limits_inv_def)
qed

theorem batch_limits_witness:
  "1 \<le> BufferSize cfgA \<and>
   list_all sized [Record r1 0, Record r2 0, Record r3 0, Tick] \<and>
   list_all (within_limits cfgA)
     (calls (trace (loop cfgA doubling [Record r1 0, Record r2 0, Record r3 0, Tick]
        (loop_init 0 scriptA)))) \<and>
   calls (trace (loop cfgA doubling [Record r1 0, Record r2 0, Record r3 0, Tick]
        (loop_init 0 scriptA))) = [[r1, r2], [r3]]"
  using batch_limits [of cfgA "[Record r1 0, Record r2 0, Record r3 0, Tick]" doubling 0 scriptA]
  by (simp add: scriptA_def record_size_def eval_defs)

subsection \<open>No empty submission\<close>

text \<open>
  Claim C8, as stated, fails: a structured result that reports one failure and
  carries no error code makes \<open>flush\<close> retry with the empty list.
\<close>

theorem empty_retry_counterexample:
  "run cfgA doubling [CallPut [1] ''a'', CallPut [2] ''b'', Receive, Receive]
     (New 0 [Output 1 [accepted, accepted]]) \<noteq> None \<and>
   calls (trace (assembler (the (run cfgA doubling
     [CallPut [1] ''a'', CallPut [2] ''b'', Receive, Receive]
     (New 0 [Output 1 [accepted, accepted]]))))) = [[r1, r2], []]"
  by (simp add: eval_defs)

text \<open>
  Claim C8, amended.  When every structured result with a failed count other than
  zero carries an error code on at least one entry, no submission is of an empty
  list: in every run of the loop over records within \<open>maxRecordSize\<close>, and in every
  schedule of the producer.
\<close>

theorem flushes_nonempty:
  assumes S: "list_all names_a_failure rs"
  shows "(list_all sized sel \<longrightarrow>
            list_all (\<lambda>b. b \<noteq> []) (calls (trace (loop cfg dur sel (loop_init a rs))))) \<and>
         (run cfg dur evs (New a rs) = Some p \<longrightarrow>
            list_all (\<lambda>b. b \<noteq> []) (calls (trace (assembler p))))"
proof (intro conjI impI)
  assume "list_all sized sel"
  then have "nonempty_inv (loop cfg dur sel (loop_init a rs))"
  proof (rule loop_invariant [where Q = nonempty_inv, rotated 3])
    show "nonempty_inv (loop_init a rs)" using S by (rule loop_init_nonempty)
  qed (simp_all add: on_record_nonempty on_tick_nonempty on_done_nonempty)
  then show "list_all (\<lambda>b. b \<noteq> []) (calls (trace (loop cfg dur sel (loop_init a rs))))"
    by (simp add: nonempty_inv_def)
next
  assume "run cfg dur evs (New a rs) = Some p"
  then have "nonempty_inv (assembler p)"
  proof (rule run_invariant [where Q = nonempty_inv, rotated 4])
    show "nonempty_inv (assembler (New a rs))"
      using S by (simp add: New_def loop_init_nonempty)
    show "\<forall>r\<in>set (records_chan (New a rs) @ sendq (New a rs)). record_size r \<le> maxRecordSize"
      by (simp add: New_def)
    show "\<And>s. nonempty_inv s \<Longrightarrow> nonempty_inv (s\<lparr>status := Crashed\<rparr>)"
      by (simp add: nonempty_inv_def)
  qed (simp_all add: on_record_nonempty on_tick_nonempty on_done_nonempty)
  then show "list_all (\<lambda>b. b \<noteq> []) (calls (trace (assembler p)))"
    by (simp add: nonempty_inv_def)
qed

theorem flushes_nonempty_witness:
  "list_all names_a_failure [Output 1 [accepted, throttled], Output 0 [accepted]] \<and>
   run cfgA doubling [CallPut [1] ''a'', CallPut [2] ''b'', Receive, Receive]
     (New 0 [Output 1 [accepted, throttled], Output 0 [accepted]]) \<noteq> None \<and>
   list_all (\<lambda>b. b \<noteq> [])
     (calls (trace (assembler (the (run cfgA doubling
        [CallPut [1] ''a'', CallPut [2] ''b'', Receive, Receive]
        (New 0 [Output 1 [accepted, throttled], Output 0 [accepted]])))))) \<and>
   calls (trace (assembler (the (run cfgA doubling
        [CallPut [1] ''a'', CallPut [2] ''b'', Receive, Receive]
        (New 0 [Output 1 [accepted, throttled], Output 0 [accepted]]))))) = [[r1, r2], [r2]]"
  using flushes_nonempty [of "[Output 1 [accepted, throttled], Output 0 [accepted]]" "[]"
      cfgA doubling 0 "[CallPut [1] ''a'', CallPut [2] ''b'', Receive, Receive]"
      "the (run cfgA doubling [CallPut [1] ''a'', CallPut [2] ''b'', Receive, Receive]
        (New 0 [Output 1 [accepted, throttled], Output 0 [accepted]]))"]
  by (simp add: rejected_def eval_defs)

end
